theory Spec2Isabelle
  imports Complex_Main
begin

section \<open>Python values, exceptions and results\<close>

text \<open>
  The timeout of a Delay is typed \<^verbatim>\<open>Union[int, float]\<close>. An int is unbounded; a float is
  represented by the value it denotes (a real number, one of the two infinities, or NaN),
  which is all that the comparisons with zero in the source look at. A bool is an int in
  Python (\<^verbatim>\<open>True\<close> is 1), so it is a \<open>PyInt\<close> here.
\<close>

datatype pynum = PyInt int | PyFloat real | PyInf | PyNegInf | PyNaN

text \<open>Any value a caller may hand to a setter: a number or something else.\<close>

datatype pyvalue = Num pynum | PyNone | PyStr string | PyObject string

datatype exn =
    AssertionError
  | CancelledError
  | ConnectionError
  | InvalidStateError
  | KeyError
  | OverflowError
  | OtherError string

text \<open>
  A call either returns or raises. Python mutates objects in place, so the state that a
  raising call leaves behind is part of the result.
\<close>

datatype 's result = Returned 's | Raised exn 's

fun state_of :: "'s result \<Rightarrow> 's" where
  "state_of (Returned s) = s"
| "state_of (Raised e s) = s"

fun raised :: "'s result \<Rightarrow> exn option" where
  "raised (Returned s) = None"
| "raised (Raised e s) = Some e"

text \<open>\<^verbatim>\<open>value >= 0\<close>, \<^verbatim>\<open>value == 0\<close>, \<^verbatim>\<open>value > 0\<close> and \<^verbatim>\<open>value < 0\<close> on numbers.
  Every comparison with NaN is false.\<close>

fun py_ge0 :: "pynum \<Rightarrow> bool" where
  "py_ge0 (PyInt i) = (i \<ge> 0)"
| "py_ge0 (PyFloat r) = (r \<ge> 0)"
| "py_ge0 PyInf = True"
| "py_ge0 PyNegInf = False"
| "py_ge0 PyNaN = False"

fun py_eq0 :: "pynum \<Rightarrow> bool" where
  "py_eq0 (PyInt i) = (i = 0)"
| "py_eq0 (PyFloat r) = (r = 0)"
| "py_eq0 PyInf = False"
| "py_eq0 PyNegInf = False"
| "py_eq0 PyNaN = False"

fun py_gt0 :: "pynum \<Rightarrow> bool" where
  "py_gt0 (PyInt i) = (i > 0)"
| "py_gt0 (PyFloat r) = (r > 0)"
| "py_gt0 PyInf = True"
| "py_gt0 PyNegInf = False"
| "py_gt0 PyNaN = False"

fun py_lt0 :: "pynum \<Rightarrow> bool" where
  "py_lt0 (PyInt i) = (i < 0)"
| "py_lt0 (PyFloat r) = (r < 0)"
| "py_lt0 PyInf = False"
| "py_lt0 PyNegInf = True"
| "py_lt0 PyNaN = False"

text \<open>\<^verbatim>\<open>isinstance(value, (int, float))\<close>\<close>

fun isinstance_int_float :: "pyvalue \<Rightarrow> bool" where
  "isinstance_int_float (Num n) = True"
| "isinstance_int_float v = False"

section \<open>Futures\<close>

text \<open>
  An \<^verbatim>\<open>asyncio.Future\<close> is pending until it gets a result, an exception or a cancellation.
  \<^verbatim>\<open>delayed_future(timeout)\<close> creates a pending future and arms a timer with
  \<^verbatim>\<open>loop.call_later\<close> that, when it fires after \<open>timeout\<close>, runs \<^verbatim>\<open>resolve\<close>; a done callback of the
  future cancels the handle of the timer. \<open>timer\<close> is the delay of the handle while it is
  armed.
\<close>

datatype fut_state = Pending | Finished bool | FutCancelled | FutFailed exn

record future =
  fstate :: fut_state
  timer :: "pynum option"

fun state_done :: "fut_state \<Rightarrow> bool" where
  "state_done Pending = False"
| "state_done s = True"

definition future_done :: "future \<Rightarrow> bool" where
  "future_done f = state_done (fstate f)"

text \<open>
  \<^verbatim>\<open>Future.set_result\<close> raises InvalidStateError on a future that is done. Otherwise it
  stores the result and schedules the done callbacks with \<^verbatim>\<open>call_soon\<close>: they run on a later
  iteration of the loop, so the timer of a delayed future is still armed when \<^verbatim>\<open>set_result\<close>
  returns. \<open>cancel_handle\<close> is the done callback \<^verbatim>\<open>lambda _: handle.cancel()\<close> that the loop then
  runs.
\<close>

definition set_result :: "future \<Rightarrow> bool \<Rightarrow> future result" where
  "set_result f r =
     (if future_done f then Raised InvalidStateError f
      else Returned (f\<lparr>fstate := Finished r\<rparr>))"

definition cancel_handle :: "future \<Rightarrow> future" where
  "cancel_handle f = f\<lparr>timer := None\<rparr>"

text \<open>
  \<^verbatim>\<open>loop.call_later(timeout, ...)\<close> adds the delay to the clock of the loop, which is a
  float. Adding an int converts it to a float first, and an int whose magnitude rounds
  beyond the largest float raises OverflowError; a float delay, infinite ones included,
  is accepted.
\<close>

definition float_overflows :: "int \<Rightarrow> bool" where
  "float_overflows i \<longleftrightarrow> \<bar>i\<bar> \<ge> 2 ^ 1024 - 2 ^ 970"

definition call_later :: "pynum \<Rightarrow> exn option" where
  "call_later t =
     (case t of
        PyInt i \<Rightarrow> if float_overflows i then Some OverflowError else None
      | _ \<Rightarrow> None)"

definition delayed_future :: "pynum \<Rightarrow> exn + future" where
  "delayed_future t =
     (case call_later t of
        Some e \<Rightarrow> Inl e
      | None \<Rightarrow> Inr \<lparr>fstate = Pending, timer = Some t\<rparr>)"

text \<open>The timer callback \<^verbatim>\<open>resolve(f)\<close> of \<^verbatim>\<open>delayed_future\<close>, with \<^verbatim>\<open>result = True\<close>.\<close>

definition resolve :: "future \<Rightarrow> future" where
  "resolve f = (if future_done f then f else state_of (set_result f True))"

section \<open>Delay\<close>

text \<open>
  \<^verbatim>\<open>Delay.__timeout\<close> starts as the int 0 and is written by the setter only, after both
  assertions, so it always holds a number. \<^verbatim>\<open>future\<close> is the future of the wait in flight,
  \<^verbatim>\<open>lock\<close> tells whether the \<^verbatim>\<open>asyncio.Lock\<close> is held.
\<close>

record Delay =
  timeout :: pynum
  future :: "future option"
  lock :: bool

definition Delay_init :: Delay where
  "Delay_init = \<lparr>timeout = PyInt 0, future = None, lock = False\<rparr>"

text \<open>
  The setter of \<^verbatim>\<open>Delay.timeout\<close>:
  \<^verbatim>\<open>
    assert isinstance(value, (int, float))
    assert value >= 0
    self.__timeout = value
    if self.future and not self.future.done():
        self.future.set_result(True)
  \<close>
\<close>

definition set_timeout :: "Delay \<Rightarrow> pyvalue \<Rightarrow> Delay result" where
  "set_timeout d v =
     (if \<not> isinstance_int_float v then Raised AssertionError d
      else case v of
        Num n \<Rightarrow>
          if \<not> py_ge0 n then Raised AssertionError d
          else
            let d1 = d\<lparr>timeout := n\<rparr> in
            (case future d1 of
               None \<Rightarrow> Returned d1
             | Some f \<Rightarrow>
                 if \<not> future_done f
                 then (case set_result f True of
                         Returned f' \<Rightarrow> Returned (d1\<lparr>future := Some f'\<rparr>)
                       | Raised e f' \<Rightarrow> Raised e (d1\<lparr>future := Some f'\<rparr>))
                 else Returned d1)
      | _ \<Rightarrow> Raised AssertionError d)"

text \<open>The words of the contract: a value is numeric, negative, non-negative; a wait is
  outstanding when the Delay holds a future that is not done.\<close>

definition numeric :: "pyvalue \<Rightarrow> bool" where
  "numeric v = (case v of Num n \<Rightarrow> True | _ \<Rightarrow> False)"

definition negative :: "pyvalue \<Rightarrow> bool" where
  "negative v = (case v of Num n \<Rightarrow> py_lt0 n | _ \<Rightarrow> False)"

definition non_negative :: "pyvalue \<Rightarrow> bool" where
  "non_negative v = (case v of Num n \<Rightarrow> py_ge0 n | _ \<Rightarrow> False)"

definition wait_outstanding :: "Delay \<Rightarrow> bool" where
  "wait_outstanding d = (case future d of None \<Rightarrow> False | Some f \<Rightarrow> \<not> future_done f)"

text \<open>
  \<^verbatim>\<open>Delay.wait\<close>:
  \<^verbatim>\<open>
    if self.__timeout == 0:
        return
    async with self.lock:
        try:
            self.future = delayed_future(self.__timeout)
            await self.future
        finally:
            self.future = None
  \<close>
  The coroutine is cut at its suspension points. \<open>wait_enter\<close> runs it from the call to
  the first point where it returns, raises or suspends, \<open>wait_acquired\<close> continues a wait
  that was queued on the lock once the lock is free, and \<open>wait_resume\<close> continues it when the
  awaited future is done (\<open>None\<close>: the future is still pending, the coroutine stays
  suspended). When \<^verbatim>\<open>delayed_future\<close> raises, nothing is assigned, \<^verbatim>\<open>finally\<close> clears the future,
  the lock is released and the exception leaves \<^verbatim>\<open>wait()\<close>.
\<close>

datatype wait_status = WaitReturned | WaitOnLock | WaitOnFuture | WaitRaised exn

datatype delay_action = AcquireLock | CreateFuture pynum | ClearFuture | ReleaseLock

definition wait_acquired :: "Delay \<Rightarrow> wait_status \<times> Delay \<times> delay_action list" where
  "wait_acquired d =
     (case delayed_future (timeout d) of
        Inl e \<Rightarrow>
          (WaitRaised e, d\<lparr>lock := False, future := None\<rparr>,
           [AcquireLock, ClearFuture, ReleaseLock])
      | Inr f \<Rightarrow>
          (WaitOnFuture, d\<lparr>lock := True, future := Some f\<rparr>,
           [AcquireLock, CreateFuture (timeout d)]))"

definition wait_enter :: "Delay \<Rightarrow> wait_status \<times> Delay \<times> delay_action list" where
  "wait_enter d =
     (if py_eq0 (timeout d) then (WaitReturned, d, [])
      else if lock d then (WaitOnLock, d, [])
      else wait_acquired d)"

definition wait_resume :: "Delay \<Rightarrow> (Delay result \<times> delay_action list) option" where
  "wait_resume d =
     (case future d of
        None \<Rightarrow> None
      | Some f \<Rightarrow>
          let d' = d\<lparr>future := None, lock := False\<rparr>; acts = [ClearFuture, ReleaseLock] in
          (case fstate f of
             Pending \<Rightarrow> None
           | Finished r \<Rightarrow> Some (Returned d', acts)
           | FutCancelled \<Rightarrow> Some (Raised CancelledError d', acts)
           | FutFailed e \<Rightarrow> Some (Raised e d', acts)))"

section \<open>Processors\<close>

text \<open>
  A processor maps a chunk to a chunk and may raise; awaiting it yields its value.
  \<^verbatim>\<open>aiomisc.awaitable\<close> (a library function) wraps a callable so that its result can be
  awaited; the value computed is the callable's.
\<close>

type_synonym bytes = string

type_synonym processor = "bytes \<Rightarrow> exn + bytes"

definition blank_processor :: processor where
  "blank_processor body = Inr body"

definition awaitable :: "processor \<Rightarrow> processor" where
  "awaitable f = f"

section \<open>TCPProxyClient: one session\<close>

text \<open>
  A task of the event loop, as the session sees it: still pending, pending with its
  cancellation requested, or done (finished, cancelled, or failed with an exception).
\<close>

datatype task = TaskPending | TaskCancelling | TaskFinished | TaskCancelled | TaskFailed exn

fun task_done :: "task \<Rightarrow> bool" where
  "task_done TaskPending = False"
| "task_done TaskCancelling = False"
| "task_done t = True"

text \<open>The only done callback the source registers on a \<^verbatim>\<open>closing\<close> future is
  \<^verbatim>\<open>lambda _: self.clients.remove(client)\<close>; it is named by the identity of that client.\<close>

datatype callback = RemoveClient nat

text \<open>
  The fields of \<^verbatim>\<open>TCPProxyClient\<close> that the operations below read or write.
  \<^verbatim>\<open>__processors\<close> is the dict keyed by \<^verbatim>\<open>"read"\<close> and \<^verbatim>\<open>"write"\<close>; \<open>closing\<close> is the state of
  the \<^verbatim>\<open>closing\<close> future and \<open>closing_callbacks\<close> its done callbacks; \<open>connected\<close> tells
  whether \<^verbatim>\<open>server_reader\<close>/\<^verbatim>\<open>server_writer\<close> are set.
\<close>

record TCPProxyClient =
  read_delay :: Delay
  write_delay :: Delay
  processors :: "string \<rightharpoonup> processor"
  tasks :: "task list"
  closing :: fut_state
  closing_callbacks :: "callback list"
  buffered :: bool
  chunk_size :: nat
  connected :: bool

definition TCPProxyClient_init :: "bool \<Rightarrow> TCPProxyClient" where
  "TCPProxyClient_init b =
     \<lparr>read_delay = Delay_init, write_delay = Delay_init,
      processors = [''read'' \<mapsto> blank_processor, ''write'' \<mapsto> blank_processor],
      tasks = [], closing = Pending, closing_callbacks = [],
      buffered = b, chunk_size = 64 * 1024, connected = False\<rparr>"

text \<open>The properties \<^verbatim>\<open>read_processor\<close> and \<^verbatim>\<open>write_processor\<close>: the getter indexes the dict
  (\<open>None\<close> stands for the KeyError of a missing key), the setter stores the blank processor
  for \<^verbatim>\<open>None\<close> and \<^verbatim>\<open>aiomisc.awaitable(value)\<close> otherwise.\<close>

definition read_processor :: "TCPProxyClient \<Rightarrow> processor option" where
  "read_processor c = processors c ''read''"

definition write_processor :: "TCPProxyClient \<Rightarrow> processor option" where
  "write_processor c = processors c ''write''"

definition set_read_processor :: "TCPProxyClient \<Rightarrow> processor option \<Rightarrow> TCPProxyClient" where
  "set_read_processor c v =
     (case v of
        None \<Rightarrow> c\<lparr>processors := (processors c)(''read'' \<mapsto> blank_processor)\<rparr>
      | Some f \<Rightarrow> c\<lparr>processors := (processors c)(''read'' \<mapsto> awaitable f)\<rparr>)"

definition set_write_processor :: "TCPProxyClient \<Rightarrow> processor option \<Rightarrow> TCPProxyClient" where
  "set_write_processor c v =
     (case v of
        None \<Rightarrow> c\<lparr>processors := (processors c)(''write'' \<mapsto> blank_processor)\<rparr>
      | Some f \<Rightarrow> c\<lparr>processors := (processors c)(''write'' \<mapsto> awaitable f)\<rparr>)"

text \<open>What a setter stores for the value it is given.\<close>

definition stored_processor :: "processor option \<Rightarrow> processor" where
  "stored_processor v = (case v of None \<Rightarrow> blank_processor | Some f \<Rightarrow> awaitable f)"

text \<open>
  \<^verbatim>\<open>connect\<close> opens the upstream connection, reads both peer names and creates the two
  forwarding tasks. What the environment does to it is one of: \<^verbatim>\<open>asyncio.open_connection\<close>
  raises; the connection opens but reading a peer name raises; everything succeeds.
\<close>

datatype connect_outcome = ConnectRaises exn | PeernameRaises exn | ConnectOk

definition connect :: "TCPProxyClient \<Rightarrow> connect_outcome \<Rightarrow> TCPProxyClient result" where
  "connect c outcome =
     (case outcome of
        ConnectRaises e \<Rightarrow> Raised e c
      | PeernameRaises e \<Rightarrow> Raised e (c\<lparr>connected := True\<rparr>)
      | ConnectOk \<Rightarrow> Returned (c\<lparr>connected := True, tasks := [TaskPending, TaskPending]\<rparr>))"

text \<open>
  \<^verbatim>\<open>aiomisc.cancel_tasks(tasks)\<close> (a library function) requests the cancellation of every
  task that is not done and returns a future that completes when all of them have
  terminated, collecting their exceptions instead of raising them. \<open>ended\<close> tells how
  each cancelled task terminates: with the cancellation (\<open>None\<close>), or with an exception
  that its cleanup raised.
\<close>

datatype close_action = CancelTask nat | AwaitTask nat | SetClosingResult | RunCallback callback

fun task_end :: "exn option \<Rightarrow> task" where
  "task_end None = TaskCancelled"
| "task_end (Some e) = TaskFailed e"

definition not_done :: "task list \<Rightarrow> nat list" where
  "not_done ts = filter (\<lambda>i. \<not> task_done (ts ! i)) [0..<length ts]"

definition cancel_tasks ::
    "(nat \<Rightarrow> exn option) \<Rightarrow> task list \<Rightarrow> close_action list \<times> task list" where
  "cancel_tasks ended ts =
     (map CancelTask (not_done ts) @ map AwaitTask (not_done ts),
      map (\<lambda>i. if task_done (ts ! i) then ts ! i else task_end (ended i)) [0..<length ts])"

text \<open>
  \<^verbatim>\<open>TCPProxyClient.close\<close>:
  \<^verbatim>\<open>
    if self.closing.done():
        return
    await aiomisc.cancel_tasks(self.tasks)
    self.loop.call_soon(self.closing.set_result, True)
    await self.closing
  \<close>
  run from the call to its return, with the actions it performs in order. The done
  callbacks of \<^verbatim>\<open>closing\<close> are called once, when it gets its result.
\<close>

definition close :: "(nat \<Rightarrow> exn option) \<Rightarrow> TCPProxyClient \<Rightarrow> close_action list \<times> TCPProxyClient" where
  "close ended c =
     (if state_done (closing c) then ([], c)
      else
        let (acts, ts') = cancel_tasks ended (tasks c) in
        (acts @ [SetClosingResult] @ map RunCallback (closing_callbacks c),
         c\<lparr>tasks := ts', closing := Finished True, closing_callbacks := []\<rparr>))"

section \<open>The forwarding loop\<close>

text \<open>
  \<^verbatim>\<open>TCPProxyClient.pipe\<close> talks to its environment at every step: the reader, the Delay of
  its direction, the processor dict of the session (both may be rewritten by the proxy
  while the loop is suspended), the writer. One \<open>iteration\<close> holds what the environment
  answers during one pass through the \<^verbatim>\<open>while\<close>: the value of \<^verbatim>\<open>reader.at_eof()\<close>, the outcome
  of \<^verbatim>\<open>await reader.read(self.chunk_size)\<close>, the value of \<^verbatim>\<open>delay.timeout\<close>, the outcome of
  \<^verbatim>\<open>await delay.wait()\<close>, the dict \<^verbatim>\<open>self.__processors\<close>, whether \<^verbatim>\<open>writer.write\<close> raises, and the
  outcome of \<^verbatim>\<open>await writer.drain()\<close>. A cancellation of the task arrives as the exception
  CancelledError at one of the awaits.
\<close>

record iteration =
  at_eof :: bool
  read_result :: "exn + bytes"
  delay_timeout :: pynum
  wait_result :: "exn option"
  processors_now :: "string \<rightharpoonup> processor"
  write_raises :: "exn option"
  drain_result :: "exn option"

text \<open>What the loop does, in order. A read and a processor call carry their outcome.\<close>

datatype action =
    Read "exn + bytes"
  | DelayWait
  | Process bytes "exn + bytes"
  | Write bytes
  | Drain
  | CloseWriter
  | WaitClosed

datatype control = Continue | Break | Raise exn

text \<open>The body of the \<^verbatim>\<open>while\<close>, for the session flag \<^verbatim>\<open>self.buffered\<close> (\<open>buf\<close>) and the dict key
  \<open>processor\<close> of the direction.\<close>

definition write_and_drain :: "bool \<Rightarrow> iteration \<Rightarrow> bytes \<Rightarrow> action list \<times> control" where
  "write_and_drain buf it data =
     (case write_raises it of
        Some e \<Rightarrow> ([], Raise e)
      | None \<Rightarrow>
          if \<not> buf
          then (case drain_result it of
                  Some e \<Rightarrow> ([Write data, Drain], Raise e)
                | None \<Rightarrow> ([Write data, Drain], Continue))
          else ([Write data], Continue))"

definition process_and_write ::
    "bool \<Rightarrow> string \<Rightarrow> iteration \<Rightarrow> bytes \<Rightarrow> action list \<times> control" where
  "process_and_write buf processor it chunk =
     (case processors_now it processor of
        None \<Rightarrow> ([], Raise KeyError)
      | Some f \<Rightarrow>
          (case f chunk of
             Inl e \<Rightarrow> ([Process chunk (Inl e)], Raise e)
           | Inr data \<Rightarrow>
               let (acts, ctl) = write_and_drain buf it data in
               (Process chunk (Inr data) # acts, ctl)))"

definition pipe_body :: "bool \<Rightarrow> string \<Rightarrow> iteration \<Rightarrow> action list \<times> control" where
  "pipe_body buf processor it =
     (case read_result it of
        Inl e \<Rightarrow> ([Read (Inl e)], Raise e)
      | Inr chunk \<Rightarrow>
          if chunk = [] then ([Read (Inr chunk)], Break)
          else if py_gt0 (delay_timeout it)
          then (case wait_result it of
                  Some e \<Rightarrow> ([Read (Inr chunk), DelayWait], Raise e)
                | None \<Rightarrow>
                    let (acts, ctl) = process_and_write buf processor it chunk in
                    ([Read (Inr chunk), DelayWait] @ acts, ctl))
          else
            let (acts, ctl) = process_and_write buf processor it chunk in
            (Read (Inr chunk) # acts, ctl))"

text \<open>The \<^verbatim>\<open>while not reader.at_eof()\<close> loop over the answers of the environment, with the
  actions performed so far. \<open>Continue\<close> as the result: the answers given do not bring the
  loop to an end, it is still running.\<close>

fun pipe_loop :: "bool \<Rightarrow> string \<Rightarrow> iteration list \<Rightarrow> action list \<times> control" where
  "pipe_loop buf processor [] = ([], Continue)"
| "pipe_loop buf processor (it # its) =
     (if at_eof it then ([], Break)
      else
        (case pipe_body buf processor it of
           (acts, Break) \<Rightarrow> (acts, Break)
         | (acts, Raise e) \<Rightarrow> (acts, Raise e)
         | (acts, Continue) \<Rightarrow>
             (let (acts', ctl) = pipe_loop buf processor its in (acts @ acts', ctl))))"

text \<open>\<^verbatim>\<open>_close_writer\<close>: \<^verbatim>\<open>writer.close()\<close>, then \<^verbatim>\<open>await writer.wait_closed()\<close>, which returns or
  raises.\<close>

definition close_writer :: "exn option \<Rightarrow> action list \<times> exn option" where
  "close_writer wait_closed_result = ([CloseWriter, WaitClosed], wait_closed_result)"

text \<open>
  \<^verbatim>\<open>pipe\<close>: the loop inside \<^verbatim>\<open>try\<close>, \<^verbatim>\<open>await self._close_writer(writer)\<close> inside \<^verbatim>\<open>finally\<close>. The
  result is the list of actions and how the coroutine stands: still running inside the
  loop, returned, or ended by an exception. An exception raised inside \<^verbatim>\<open>finally\<close> replaces
  the one of the loop.
\<close>

datatype outcome = Running | Returns | Raises exn

definition pipe ::
    "bool \<Rightarrow> string \<Rightarrow> iteration list \<Rightarrow> exn option \<Rightarrow> action list \<times> outcome" where
  "pipe buf processor its wait_closed_result =
     (case pipe_loop buf processor its of
        (acts, Continue) \<Rightarrow> (acts, Running)
      | (acts, Break) \<Rightarrow>
          (let (facts, fr) = close_writer wait_closed_result in
           (acts @ facts, (case fr of Some e \<Rightarrow> Raises e | None \<Rightarrow> Returns)))
      | (acts, Raise e0) \<Rightarrow>
          (let (facts, fr) = close_writer wait_closed_result in
           (acts @ facts, (case fr of Some e \<Rightarrow> Raises e | None \<Rightarrow> Raises e0))))"

text \<open>The chunks of a list of actions: the non-empty chunks read, the pairs of a chunk
  and what the processor made of it, and the data written.\<close>

fun chunks_read :: "action list \<Rightarrow> bytes list" where
  "chunks_read [] = []"
| "chunks_read (Read (Inr c) # acts) = (if c = [] then chunks_read acts else c # chunks_read acts)"
| "chunks_read (a # acts) = chunks_read acts"

fun chunks_processed :: "action list \<Rightarrow> (bytes \<times> bytes) list" where
  "chunks_processed [] = []"
| "chunks_processed (Process c (Inr d) # acts) = (c, d) # chunks_processed acts"
| "chunks_processed (a # acts) = chunks_processed acts"

fun chunks_written :: "action list \<Rightarrow> bytes list" where
  "chunks_written [] = []"
| "chunks_written (Write d # acts) = d # chunks_written acts"
| "chunks_written (a # acts) = chunks_written acts"

section \<open>TCPProxy\<close>

text \<open>
  The fields of \<^verbatim>\<open>TCPProxy\<close> that the operations below read or write; the defaults carry the
  prefix \<open>p_\<close> to keep them apart from the fields of a session. The defaults for the delays
  hold whatever value \<^verbatim>\<open>set_delay\<close> was given. \<^verbatim>\<open>clients\<close> is a Python set of session objects:
  each session is paired with its identity, the list order is the order in which the set
  is iterated, and \<open>next_id\<close> is the identity that the next session object gets.
\<close>

record TCPProxy =
  p_read_delay :: pyvalue
  p_write_delay :: pyvalue
  p_read_processor :: "processor option"
  p_write_processor :: "processor option"
  p_buffered :: bool
  clients :: "(nat \<times> TCPProxyClient) list"
  next_id :: nat

definition TCPProxy_init :: "bool \<Rightarrow> TCPProxy" where
  "TCPProxy_init b =
     \<lparr>p_read_delay = Num (PyInt 0), p_write_delay = Num (PyInt 0),
      p_read_processor = None, p_write_processor = None,
      p_buffered = b, clients = [], next_id = 0\<rparr>"

definition client_ids :: "TCPProxy \<Rightarrow> nat list" where
  "client_ids p = map fst (clients p)"

definition put_client :: "nat \<Rightarrow> TCPProxyClient \<Rightarrow> TCPProxy \<Rightarrow> TCPProxy" where
  "put_client k c p =
     p\<lparr>clients := map (\<lambda>(j, c0). if j = k then (j, c) else (j, c0)) (clients p)\<rparr>"

text \<open>
  \<^verbatim>\<open>set_delay\<close>: the loop over the clients assigns both timeouts of each one through the
  setter, which may raise and then ends the loop where it stands; the defaults are
  assigned after the loop.
\<close>

fun apply_delays ::
    "pyvalue \<Rightarrow> pyvalue \<Rightarrow> (nat \<times> TCPProxyClient) list \<Rightarrow> (nat \<times> TCPProxyClient) list result" where
  "apply_delays r w [] = Returned []"
| "apply_delays r w ((k, c) # cs) =
     (case set_timeout (read_delay c) r of
        Raised e d \<Rightarrow> Raised e ((k, c\<lparr>read_delay := d\<rparr>) # cs)
      | Returned d \<Rightarrow>
          (case set_timeout (write_delay c) w of
             Raised e d' \<Rightarrow> Raised e ((k, c\<lparr>read_delay := d, write_delay := d'\<rparr>) # cs)
           | Returned d' \<Rightarrow>
               (case apply_delays r w cs of
                  Raised e cs' \<Rightarrow> Raised e ((k, c\<lparr>read_delay := d, write_delay := d'\<rparr>) # cs')
                | Returned cs' \<Rightarrow> Returned ((k, c\<lparr>read_delay := d, write_delay := d'\<rparr>) # cs'))))"

definition set_delay :: "TCPProxy \<Rightarrow> pyvalue \<Rightarrow> pyvalue \<Rightarrow> TCPProxy result" where
  "set_delay p r w =
     (case apply_delays r w (clients p) of
        Raised e cs \<Rightarrow> Raised e (p\<lparr>clients := cs\<rparr>)
      | Returned cs \<Rightarrow> Returned (p\<lparr>clients := cs, p_read_delay := r, p_write_delay := w\<rparr>))"

text \<open>\<^verbatim>\<open>set_content_processors\<close>: both setters on every client, then the defaults.\<close>

definition set_content_processors ::
    "TCPProxy \<Rightarrow> processor option \<Rightarrow> processor option \<Rightarrow> TCPProxy" where
  "set_content_processors p r w =
     p\<lparr>clients := map (\<lambda>(k, c). (k, set_write_processor (set_read_processor c r) w)) (clients p),
       p_read_processor := r, p_write_processor := w\<rparr>"

text \<open>
  The done callback \<^verbatim>\<open>lambda _: self.clients.remove(client)\<close>. The event loop calls it; a
  KeyError raised by \<^verbatim>\<open>remove\<close> for a client that is not in the set goes to the loop's
  exception handler and leaves the set as it is.
\<close>

fun run_callback :: "callback \<Rightarrow> TCPProxy \<Rightarrow> TCPProxy" where
  "run_callback (RemoveClient k) p = p\<lparr>clients := filter (\<lambda>(j, c). j \<noteq> k) (clients p)\<rparr>"

definition run_callbacks :: "callback list \<Rightarrow> TCPProxy \<Rightarrow> TCPProxy" where
  "run_callbacks cbs p = fold run_callback cbs p"

text \<open>
  \<^verbatim>\<open>_handle_client\<close>, cut at \<^verbatim>\<open>await client.connect(...)\<close>. \<open>handle_client_begin\<close> creates the
  session, adds it to the set and seeds it from the defaults; an assertion of the timeout
  setter that fails ends the handler there. \<open>handle_client_end\<close> runs for the session \<open>k\<close>
  when the connection attempt has its outcome: \<^verbatim>\<open>connect\<close> finishes, and only if it returned
  is the done callback added to \<^verbatim>\<open>closing\<close> (a callback added to a future that is done
  is called at once).
\<close>

definition handle_client_begin :: "TCPProxy \<Rightarrow> TCPProxy result" where
  "handle_client_begin p =
     (let k = next_id p;
          client = TCPProxyClient_init (p_buffered p);
          p0 = p\<lparr>clients := clients p @ [(k, client)], next_id := Suc k\<rparr>
      in case set_timeout (read_delay client) (p_read_delay p) of
           Raised e d \<Rightarrow> Raised e (put_client k (client\<lparr>read_delay := d\<rparr>) p0)
         | Returned d \<Rightarrow>
             (case set_timeout (write_delay client) (p_write_delay p) of
                Raised e d' \<Rightarrow>
                  Raised e (put_client k (client\<lparr>read_delay := d, write_delay := d'\<rparr>) p0)
              | Returned d' \<Rightarrow>
                  Returned (put_client k
                    (set_write_processor
                       (set_read_processor (client\<lparr>read_delay := d, write_delay := d'\<rparr>)
                          (p_read_processor p))
                       (p_write_processor p)) p0)))"

definition handle_client_end :: "nat \<Rightarrow> connect_outcome \<Rightarrow> TCPProxy \<Rightarrow> TCPProxy result" where
  "handle_client_end k outcome p =
     (case map_of (clients p) k of
        None \<Rightarrow> Returned p
      | Some c \<Rightarrow>
          (case connect c outcome of
             Raised e c' \<Rightarrow> Raised e (put_client k c' p)
           | Returned c' \<Rightarrow>
               if state_done (closing c')
               then Returned (run_callback (RemoveClient k) (put_client k c' p))
               else Returned (put_client k
                      (c'\<lparr>closing_callbacks := closing_callbacks c' @ [RemoveClient k]\<rparr>) p)))"

definition handle_client :: "TCPProxy \<Rightarrow> connect_outcome \<Rightarrow> TCPProxy result" where
  "handle_client p outcome =
     (case handle_client_begin p of
        Raised e p' \<Rightarrow> Raised e p'
      | Returned p' \<Rightarrow> handle_client_end (next_id p) outcome p')"

text \<open>\<^verbatim>\<open>client.close()\<close> for the session \<open>k\<close> of the set, followed by the done callbacks of its
  \<^verbatim>\<open>closing\<close> future that the event loop then calls.\<close>

definition callbacks_of :: "close_action list \<Rightarrow> callback list" where
  "callbacks_of acts = concat (map (\<lambda>a. case a of RunCallback cb \<Rightarrow> [cb] | _ \<Rightarrow> []) acts)"

definition close_client :: "(nat \<Rightarrow> exn option) \<Rightarrow> nat \<Rightarrow> TCPProxy \<Rightarrow> TCPProxy" where
  "close_client ended k p =
     (case map_of (clients p) k of
        None \<Rightarrow> p
      | Some c \<Rightarrow>
          let (acts, c') = close ended c in
          run_callbacks (callbacks_of acts) (put_client k c' p))"

text \<open>
  Code that holds a session of the set assigns to its properties:
  \<^verbatim>\<open>client.read_processor = value\<close> and \<^verbatim>\<open>client.write_processor = value\<close> for the session \<open>k\<close>.
  \<open>apply_read_processor\<close> is what the read processor of the session \<open>k\<close> makes of a chunk
  (a KeyError when there is no such session or no such key).
\<close>

definition set_client_read_processor :: "nat \<Rightarrow> processor option \<Rightarrow> TCPProxy \<Rightarrow> TCPProxy" where
  "set_client_read_processor k v p =
     (case map_of (clients p) k of
        None \<Rightarrow> p
      | Some c \<Rightarrow> put_client k (set_read_processor c v) p)"

definition set_client_write_processor :: "nat \<Rightarrow> processor option \<Rightarrow> TCPProxy \<Rightarrow> TCPProxy" where
  "set_client_write_processor k v p =
     (case map_of (clients p) k of
        None \<Rightarrow> p
      | Some c \<Rightarrow> put_client k (set_write_processor c v) p)"

definition apply_read_processor :: "TCPProxy \<Rightarrow> nat \<Rightarrow> bytes \<Rightarrow> exn + bytes" where
  "apply_read_processor p k chunk =
     (case map_of (clients p) k of
        None \<Rightarrow> Inl KeyError
      | Some c \<Rightarrow> (case read_processor c of None \<Rightarrow> Inl KeyError | Some f \<Rightarrow> f chunk))"

text \<open>
  \<^verbatim>\<open>slowdown\<close> as a context manager around a block. The block is any code that works on
  the proxy: it returns or raises and leaves a proxy state behind.
  \<^verbatim>\<open>
    old_read_delay = self.read_delay
    old_write_delay = self.write_delay
    self.set_delay(read_delay, write_delay)
    try:
        yield
    finally:
        self.set_delay(old_read_delay, old_write_delay)
  \<close>
\<close>

definition slowdown ::
    "TCPProxy \<Rightarrow> pyvalue \<Rightarrow> pyvalue \<Rightarrow> (TCPProxy \<Rightarrow> TCPProxy result) \<Rightarrow> TCPProxy result" where
  "slowdown p r w block =
     (let old_read_delay = p_read_delay p; old_write_delay = p_write_delay p in
      case set_delay p r w of
        Raised e p1 \<Rightarrow> Raised e p1
      | Returned p1 \<Rightarrow>
          (case block p1 of
             Returned p2 \<Rightarrow> set_delay p2 old_read_delay old_write_delay
           | Raised e p2 \<Rightarrow>
               (case set_delay p2 old_read_delay old_write_delay of
                  Returned p3 \<Rightarrow> Raised e p3
                | Raised e' p3 \<Rightarrow> Raised e' p3)))"

section \<open>Runs of the proxy\<close>

text \<open>
  The state in which operations on one proxy follow one another: the proxy, and the
  sessions whose accept handler is suspended in \<^verbatim>\<open>await client.connect(...)\<close>. An operation is
  a call of \<^verbatim>\<open>set_delay\<close> or \<^verbatim>\<open>set_content_processors\<close>, an assignment to a processor of one
  session, the arrival of a connection (the accept handler up to its await), the outcome of
  the connection attempt of a session (the rest of its handler, which runs once), or
  \<^verbatim>\<open>close()\<close> on one session. A call that raises leaves its state behind and the run goes on.
  \<^verbatim>\<open>slowdown\<close> and \<^verbatim>\<open>disconnect_all\<close> are sequences of these: two \<^verbatim>\<open>set_delay\<close> calls around the
  block, and one \<^verbatim>\<open>close()\<close> for every session of the set.
\<close>

record system =
  proxy :: TCPProxy
  connecting :: "nat list"

datatype op =
    SetDelay pyvalue pyvalue
  | SetContentProcessors "processor option" "processor option"
  | SetReadProcessor nat "processor option"
  | SetWriteProcessor nat "processor option"
  | Accept
  | Connected nat connect_outcome
  | Close nat "nat \<Rightarrow> exn option"

fun run_op :: "op \<Rightarrow> system \<Rightarrow> system" where
  "run_op (SetDelay r w) s = s\<lparr>proxy := state_of (set_delay (proxy s) r w)\<rparr>"
| "run_op (SetContentProcessors r w) s = s\<lparr>proxy := set_content_processors (proxy s) r w\<rparr>"
| "run_op (SetReadProcessor k v) s = s\<lparr>proxy := set_client_read_processor k v (proxy s)\<rparr>"
| "run_op (SetWriteProcessor k v) s = s\<lparr>proxy := set_client_write_processor k v (proxy s)\<rparr>"
| "run_op Accept s =
     (case handle_client_begin (proxy s) of
        Returned p' \<Rightarrow> \<lparr>proxy = p', connecting = connecting s @ [next_id (proxy s)]\<rparr>
      | Raised e p' \<Rightarrow> s\<lparr>proxy := p'\<rparr>)"
| "run_op (Connected k outcome) s =
     (if k \<in> set (connecting s)
      then \<lparr>proxy = state_of (handle_client_end k outcome (proxy s)),
            connecting = removeAll k (connecting s)\<rparr>
      else s)"
| "run_op (Close k ended) s = s\<lparr>proxy := close_client ended k (proxy s)\<rparr>"

definition run_ops :: "op list \<Rightarrow> system \<Rightarrow> system" where
  "run_ops ops s = fold run_op ops s"

definition system_init :: "bool \<Rightarrow> system" where
  "system_init b = \<lparr>proxy = TCPProxy_init b, connecting = []\<rparr>"

text \<open>An operation is valid when the delays it sets are non-negative numbers.
  \<open>defaults_of\<close>: the two default delays of a proxy.\<close>

fun valid_op :: "op \<Rightarrow> bool" where
  "valid_op (SetDelay r w) = (non_negative r \<and> non_negative w)"
| "valid_op x = True"

definition defaults_of :: "TCPProxy \<Rightarrow> pyvalue \<times> pyvalue" where
  "defaults_of p = (p_read_delay p, p_write_delay p)"

text \<open>
  \<open>session_read_processor\<close> and \<open>session_write_processor\<close>: what \<^verbatim>\<open>read_processor\<close> and
  \<^verbatim>\<open>write_processor\<close> of the session \<open>k\<close> of the set return (\<open>None\<close> when the set holds no such
  session); \<open>session_processors\<close> pairs them. An operation keeps the read processor of the
  session \<open>k\<close> when it is neither a Proxy-level \<^verbatim>\<open>set_content_processors\<close> nor an assignment to
  the read processor of that session; likewise for the write processor; it keeps both when
  it keeps each.
\<close>

definition session_read_processor :: "TCPProxy \<Rightarrow> nat \<Rightarrow> processor option option" where
  "session_read_processor p k = map_option read_processor (map_of (clients p) k)"

definition session_write_processor :: "TCPProxy \<Rightarrow> nat \<Rightarrow> processor option option" where
  "session_write_processor p k = map_option write_processor (map_of (clients p) k)"

definition session_processors ::
    "TCPProxy \<Rightarrow> nat \<Rightarrow> (processor option \<times> processor option) option" where
  "session_processors p k =
     map_option (\<lambda>c. (read_processor c, write_processor c)) (map_of (clients p) k)"

fun keeps_read_processor :: "nat \<Rightarrow> op \<Rightarrow> bool" where
  "keeps_read_processor k (SetContentProcessors r w) = False"
| "keeps_read_processor k (SetReadProcessor j v) = (j \<noteq> k)"
| "keeps_read_processor k x = True"

fun keeps_write_processor :: "nat \<Rightarrow> op \<Rightarrow> bool" where
  "keeps_write_processor k (SetContentProcessors r w) = False"
| "keeps_write_processor k (SetWriteProcessor j v) = (j \<noteq> k)"
| "keeps_write_processor k x = True"

fun keeps_processors :: "nat \<Rightarrow> op \<Rightarrow> bool" where
  "keeps_processors k (SetContentProcessors r w) = False"
| "keeps_processors k (SetReadProcessor j v) = (j \<noteq> k)"
| "keeps_processors k (SetWriteProcessor j v) = (j \<noteq> k)"
| "keeps_processors k x = True"

text \<open>The done callbacks that are registered on the \<^verbatim>\<open>closing\<close> futures of the sessions in
  the set.\<close>

definition registered :: "TCPProxy \<Rightarrow> callback list" where
  "registered p = concat (map (\<lambda>(k, c). closing_callbacks c) (clients p))"

section \<open>Closing all sessions\<close>

text \<open>
  \<^verbatim>\<open>disconnect_all\<close> creates one \<^verbatim>\<open>client.close()\<close> coroutine for every session of the set and
  hands them to \<^verbatim>\<open>asyncio.gather(..., return_exceptions=True)\<close>, which runs each one as a task
  of its own; the future of the gathering is what the caller gets. The tasks run
  interleaved, so \<^verbatim>\<open>close()\<close> is cut at its awaits here:
  \<^verbatim>\<open>
    if self.closing.done():
        return
    await aiomisc.cancel_tasks(self.tasks)                --  CloseAwaitTasks
    self.loop.call_soon(self.closing.set_result, True)
    await self.closing                                    --  CloseAwaitClosing
  \<close>
  \<open>CloseStart\<close> is the coroutine before its first step, \<open>CloseEnded\<close> carries the exception
  it ended with, if any.
\<close>

datatype close_phase = CloseStart | CloseAwaitTasks | CloseAwaitClosing | CloseEnded "exn option"

text \<open>
  What happens to the child \<open>i\<close> of the gathering: the event loop runs its next step
  (\<open>Step i\<close>: a suspended coroutine goes on only when what it awaits is done); the forwarding
  task \<open>j\<close> of its session, whose cancellation was requested, terminates (\<open>TaskEnds i j e\<close>);
  the task that runs the coroutine is cancelled from outside (\<open>CancelClose i\<close>), which makes
  it end with CancelledError and cancels the \<^verbatim>\<open>closing\<close> future when that is what it awaits.
\<close>

datatype event = Step nat | TaskEnds nat nat "exn option" | CancelClose nat

fun target :: "event \<Rightarrow> nat" where
  "target (Step i) = i"
| "target (TaskEnds i j e) = i"
| "target (CancelClose i) = i"

fun request_cancel :: "task \<Rightarrow> task" where
  "request_cancel TaskPending = TaskCancelling"
| "request_cancel t = t"

text \<open>One event on a close coroutine in the phase \<open>ph\<close> of the session \<open>c\<close>: the new phase,
  the session afterwards, and the done callbacks of \<^verbatim>\<open>closing\<close> that are called.\<close>

fun close_event ::
    "event \<Rightarrow> close_phase \<Rightarrow> TCPProxyClient \<Rightarrow> close_phase \<times> TCPProxyClient \<times> callback list" where
  "close_event (Step i) CloseStart c =
     (if state_done (closing c) then (CloseEnded None, c, [])
      else if not_done (tasks c) = [] then (CloseAwaitClosing, c, [])
      else (CloseAwaitTasks, c\<lparr>tasks := map request_cancel (tasks c)\<rparr>, []))"
| "close_event (Step i) CloseAwaitTasks c =
     (if not_done (tasks c) = [] then (CloseAwaitClosing, c, []) else (CloseAwaitTasks, c, []))"
| "close_event (Step i) CloseAwaitClosing c =
     (if state_done (closing c) then (CloseEnded None, c, [])
      else (CloseEnded None, c\<lparr>closing := Finished True, closing_callbacks := []\<rparr>,
            closing_callbacks c))"
| "close_event (Step i) (CloseEnded r) c = (CloseEnded r, c, [])"
| "close_event (TaskEnds i j e) ph c =
     (ph,
      if j < length (tasks c) \<and> tasks c ! j = TaskCancelling
      then c\<lparr>tasks := (tasks c)[j := task_end e]\<rparr> else c,
      [])"
| "close_event (CancelClose i) CloseStart c = (CloseEnded (Some CancelledError), c, [])"
| "close_event (CancelClose i) CloseAwaitTasks c = (CloseEnded (Some CancelledError), c, [])"
| "close_event (CancelClose i) CloseAwaitClosing c =
     (if state_done (closing c) then (CloseEnded (Some CancelledError), c, [])
      else (CloseEnded (Some CancelledError),
            c\<lparr>closing := FutCancelled, closing_callbacks := []\<rparr>, closing_callbacks c))"
| "close_event (CancelClose i) (CloseEnded r) c = (CloseEnded r, c, [])"

text \<open>
  A list of events on one close coroutine, with the callbacks called on the way, and the
  events of a \<^verbatim>\<open>close()\<close> that nothing disturbs, as the child \<open>i\<close> of a gathering: on a session
  that is closed its first step, which returns; otherwise its first step, the termination
  of the forwarding tasks, and the two steps that follow its two awaits.
\<close>

definition close_events ::
    "event list \<Rightarrow> close_phase \<times> TCPProxyClient \<times> callback list
       \<Rightarrow> close_phase \<times> TCPProxyClient \<times> callback list" where
  "close_events evs st =
     fold (\<lambda>e (ph, c, cbs). let (ph', c', cbs') = close_event e ph c in (ph', c', cbs @ cbs'))
       evs st"

definition close_schedule :: "nat \<Rightarrow> (nat \<Rightarrow> exn option) \<Rightarrow> TCPProxyClient \<Rightarrow> event list" where
  "close_schedule i ended c =
     (if state_done (closing c) then [Step i]
      else [Step i] @ map (\<lambda>j. TaskEnds i j (ended j)) [0..<length (tasks c)] @ [Step i, Step i])"

fun phase_ended :: "close_phase \<Rightarrow> bool" where
  "phase_ended (CloseEnded r) = True"
| "phase_ended ph = False"

fun phase_outcome :: "close_phase \<Rightarrow> exn option" where
  "phase_outcome (CloseEnded r) = r"
| "phase_outcome ph = None"

text \<open>
  \<^verbatim>\<open>asyncio.gather(*coros, return_exceptions=...)\<close> (library code) wraps every coroutine in a
  task, registers a done callback on each and returns the future \<^verbatim>\<open>outer\<close>; without
  arguments it returns a future that already has the result \<^verbatim>\<open>[]\<close>. The state of a gathering:
  the proxy, for every child the identity of its session and the phase of its coroutine,
  the flag, the children whose done callback has run (\<^verbatim>\<open>nfinished\<close> is their number), and the
  state of \<^verbatim>\<open>outer\<close>: pending (\<open>None\<close>), an exception, or the list of what each child ended with
  (\<open>None\<close> for a return, the exception otherwise).
\<close>

record gathering =
  g_proxy :: TCPProxy
  children :: "(nat \<times> close_phase) list"
  return_exceptions :: bool
  notified :: "nat list"
  outer :: "(exn + exn option list) option"

definition gather :: "TCPProxy \<Rightarrow> (nat \<times> close_phase) list \<Rightarrow> bool \<Rightarrow> gathering" where
  "gather p coros flag =
     \<lparr>g_proxy = p, children = coros, return_exceptions = flag, notified = [],
      outer = (if coros = [] then Some (Inr []) else None)\<rparr>"

text \<open>
  \<^verbatim>\<open>disconnect_all\<close>:
  \<^verbatim>\<open>
    return asyncio.ensure_future(
        asyncio.gather(
            *[client.close() for client in self.clients],
            return_exceptions=True,
        ),
    )
  \<close>
  One \<^verbatim>\<open>close()\<close> coroutine, not yet started, for every session of the set;
  \<^verbatim>\<open>ensure_future\<close> returns the future it is given.
\<close>

definition disconnect_all :: "TCPProxy \<Rightarrow> gathering" where
  "disconnect_all p = gather p (map (\<lambda>(k, c). (k, CloseStart)) (clients p)) True"

text \<open>An event on the coroutine that closes the session \<open>k\<close>: the session is updated in
  place and the callbacks are called on the proxy. A session that has left the set is out
  of reach of this model; its coroutine stays as it is.\<close>

definition child_event :: "event \<Rightarrow> nat \<Rightarrow> close_phase \<Rightarrow> TCPProxy \<Rightarrow> close_phase \<times> TCPProxy" where
  "child_event e k ph p =
     (case map_of (clients p) k of
        None \<Rightarrow> (ph, p)
      | Some c \<Rightarrow>
          (let (ph', c', cbs) = close_event e ph c
           in (ph', run_callbacks cbs (put_client k c' p))))"

definition gather_event :: "event \<Rightarrow> gathering \<Rightarrow> gathering" where
  "gather_event e g =
     (if target e < length (children g)
      then (let (k, ph) = children g ! target e;
                (ph', p') = child_event e k ph (g_proxy g)
            in g\<lparr>g_proxy := p', children := (children g)[target e := (k, ph')]\<rparr>)
      else g)"

definition gather_run :: "event list \<Rightarrow> gathering \<Rightarrow> gathering" where
  "gather_run evs g = fold gather_event evs g"

text \<open>
  The done callback that \<^verbatim>\<open>gather\<close> registers on every child:
  \<^verbatim>\<open>
    nfinished += 1
    if outer is None or outer.done():
        return
    if not return_exceptions:
        if fut.cancelled():
            outer.set_exception(fut._make_cancelled_error()); return
        else:
            exc = fut.exception()
            if exc is not None:
                outer.set_exception(exc); return
    if nfinished == nfuts:
        results = [what each child ended with]
        outer.set_result(results)
  \<close>
  The event loop calls it once for every child, on an iteration after the one in which the
  child has ended; at any other moment \<open>Notify i\<close> is no step of the loop and changes
  nothing. A step of the loop is an event on a child or the call of a done callback.
  Cancelling \<^verbatim>\<open>outer\<close> itself, which its holder may do, is not among the steps.
\<close>

definition done_callback :: "nat \<Rightarrow> gathering \<Rightarrow> gathering" where
  "done_callback i g =
     (if i < length (children g) \<and> phase_ended (snd (children g ! i)) \<and> i \<notin> set (notified g)
      then
        let g1 = g\<lparr>notified := notified g @ [i]\<rparr> in
        if outer g \<noteq> None then g1
        else if \<not> return_exceptions g \<and> phase_outcome (snd (children g ! i)) \<noteq> None
        then g1\<lparr>outer := map_option Inl (phase_outcome (snd (children g ! i)))\<rparr>
        else if length (notified g1) = length (children g)
        then g1\<lparr>outer := Some (Inr (map (\<lambda>(k, ph). phase_outcome ph) (children g)))\<rparr>
        else g1
      else g)"

datatype loop_event = Child event | Notify nat

fun loop_step :: "loop_event \<Rightarrow> gathering \<Rightarrow> gathering" where
  "loop_step (Child e) g = gather_event e g"
| "loop_step (Notify i) g = done_callback i g"

definition loop_run :: "loop_event list \<Rightarrow> gathering \<Rightarrow> gathering" where
  "loop_run steps g = fold loop_step steps g"

text \<open>The events on the children among the steps of the loop, and those of them that are
  addressed to the child \<open>i\<close>.\<close>

fun child_events :: "loop_event list \<Rightarrow> event list" where
  "child_events [] = []"
| "child_events (Child e # steps) = e # child_events steps"
| "child_events (Notify i # steps) = child_events steps"

definition events_for :: "nat \<Rightarrow> loop_event list \<Rightarrow> event list" where
  "events_for i steps = filter (\<lambda>e. target e = i) (child_events steps)"

text \<open>What every child of a gathering has ended with, and whether all have ended.\<close>

definition outcomes :: "gathering \<Rightarrow> exn option list" where
  "outcomes g = map (\<lambda>(k, ph). phase_outcome ph) (children g)"

definition all_ended :: "gathering \<Rightarrow> bool" where
  "all_ended g = list_all (\<lambda>(k, ph). phase_ended ph) (children g)"

definition all_notified :: "gathering \<Rightarrow> bool" where
  "all_notified g = list_all (\<lambda>i. i \<in> set (notified g)) [0..<length (children g)]"

text \<open>
  An invariant of the gathering that \<^verbatim>\<open>disconnect_all\<close> creates: the done callbacks that have
  run are those of distinct children that have ended, \<^verbatim>\<open>outer\<close> is pending only while some
  callback has not run, and when it is done it holds the result.
\<close>

definition gather_inv :: "gathering \<Rightarrow> bool" where
  "gather_inv g \<longleftrightarrow>
     return_exceptions g \<and> distinct (notified g) \<and>
     (\<forall>i \<in> set (notified g). i < length (children g) \<and> phase_ended (snd (children g ! i))) \<and>
     (outer g = None \<longrightarrow> length (notified g) < length (children g)) \<and>
     (outer g \<noteq> None \<longrightarrow> all_ended g \<and> outer g = Some (Inr (outcomes g)))"

text \<open>What the child \<open>i\<close> of a gathering can see and change: its entry, and the session it
  closes as the set holds it. \<open>closed_or_gone\<close>: the session \<open>k\<close> is marked closed, or has left
  the set.\<close>

definition child_view :: "nat \<Rightarrow> gathering \<Rightarrow> (nat \<times> close_phase) \<times> TCPProxyClient option" where
  "child_view i g = (children g ! i, map_of (clients (g_proxy g)) (fst (children g ! i)))"

definition closed_or_gone :: "TCPProxy \<Rightarrow> nat \<Rightarrow> bool" where
  "closed_or_gone p k =
     (case map_of (clients p) k of None \<Rightarrow> True | Some c \<Rightarrow> state_done (closing c))"

text \<open>Every done callback belongs to the session on which it is registered.\<close>

definition owned :: "TCPProxy \<Rightarrow> bool" where
  "owned p \<longleftrightarrow> list_all (\<lambda>(k, c). set (closing_callbacks c) \<subseteq> {RemoveClient k}) (clients p)"

definition gathering_wf :: "gathering \<Rightarrow> bool" where
  "gathering_wf g \<longleftrightarrow> owned (g_proxy g) \<and> distinct (map fst (children g))"

text \<open>A child that has ended without an exception has left its session closed or out of
  the set.\<close>

definition ended_closed :: "gathering \<Rightarrow> bool" where
  "ended_closed g \<longleftrightarrow>
     (\<forall>i < length (children g).
        snd (children g ! i) = CloseEnded None \<longrightarrow>
        closed_or_gone (g_proxy g) (fst (children g ! i)))"

text \<open>
  Two invariants of runs. \<open>reachable_inv\<close> holds in every state of a run from the initial
  state: a session whose handler is suspended in \<^verbatim>\<open>connect\<close> is in the set and has no done
  callback registered, and every identity in use is below \<open>next_id\<close>. \<open>stuck k\<close>: the session
  \<open>k\<close> is in the set, its handler has ended, and no registered callback removes it.
\<close>

definition reachable_inv :: "system \<Rightarrow> bool" where
  "reachable_inv s \<longleftrightarrow>
     (\<forall>k \<in> set (connecting s).
        k \<in> set (client_ids (proxy s)) \<and> RemoveClient k \<notin> set (registered (proxy s))) \<and>
     (\<forall>k \<in> set (client_ids (proxy s)). k < next_id (proxy s)) \<and>
     (\<forall>i. RemoveClient i \<in> set (registered (proxy s)) \<longrightarrow> i < next_id (proxy s))"

definition stuck :: "nat \<Rightarrow> system \<Rightarrow> bool" where
  "stuck k s \<longleftrightarrow>
     k \<in> set (client_ids (proxy s)) \<and> k \<notin> set (connecting s) \<and> k < next_id (proxy s) \<and>
     RemoveClient k \<notin> set (registered (proxy s))"

text \<open>
  Order of forwarding, on a list of actions. \<open>in_order\<close>: the chunks processed are the
  first chunks read and the data written are the first results of the processor, in the
  same order. \<open>one_in_flight\<close>: at every point of the list, at most one chunk has been read
  and not yet written. \<open>balanced\<close>: every chunk read has been processed and written.
\<close>

definition balanced :: "action list \<Rightarrow> bool" where
  "balanced acts \<longleftrightarrow>
     map fst (chunks_processed acts) = chunks_read acts \<and>
     map snd (chunks_processed acts) = chunks_written acts"

definition in_order :: "action list \<Rightarrow> bool" where
  "in_order acts \<longleftrightarrow>
     map fst (chunks_processed acts) =
       take (length (chunks_processed acts)) (chunks_read acts) \<and>
     chunks_written acts =
       take (length (chunks_written acts)) (map snd (chunks_processed acts))"

definition one_in_flight :: "action list \<Rightarrow> bool" where
  "one_in_flight acts \<longleftrightarrow>
     (\<forall>n. length (chunks_read (take n acts)) \<le> Suc (length (chunks_written (take n acts))))"

section \<open>Sample inputs\<close>

text \<open>A Delay on which a \<^verbatim>\<open>wait()\<close> is suspended: the lock is held and the future of the wait
  is pending, its timer armed with the timeout \<open>t\<close>.\<close>

definition waiting_delay :: "pynum \<Rightarrow> Delay" where
  "waiting_delay t =
     \<lparr>timeout = t, future = Some \<lparr>fstate = Pending, timer = Some t\<rparr>, lock = True\<rparr>"

text \<open>An iteration in which everything succeeds: the reader delivers the chunk \<open>c\<close>, the
  Delay of the direction has the timeout \<open>t\<close>, both processors are the blank one.\<close>

definition chunk_iteration :: "bytes \<Rightarrow> pynum \<Rightarrow> iteration" where
  "chunk_iteration c t =
     \<lparr>at_eof = False, read_result = Inr c, delay_timeout = t, wait_result = None,
      processors_now = [''read'' \<mapsto> blank_processor, ''write'' \<mapsto> blank_processor],
      write_raises = None, drain_result = None\<rparr>"

text \<open>The processors of the test \<^verbatim>\<open>test_proxy_client_with_processor\<close>:
  \<^verbatim>\<open>lambda _: processed_request\<close> and \<^verbatim>\<open>lambda chunk: chunk[::-1]\<close>.\<close>

definition const_processor :: "bytes \<Rightarrow> processor" where
  "const_processor answer chunk = Inr answer"

definition reverse_processor :: processor where
  "reverse_processor chunk = Inr (rev chunk)"

definition eof_iteration :: iteration where
  "eof_iteration = (chunk_iteration [] (PyInt 0))\<lparr>at_eof := True\<rparr>"

text \<open>A session after a successful \<^verbatim>\<open>connect\<close>, with the done callback of the accept
  handler on its \<^verbatim>\<open>closing\<close> future.\<close>

definition connected_client :: TCPProxyClient where
  "connected_client =
     (state_of (connect (TCPProxyClient_init True) ConnectOk))\<lparr>closing_callbacks := [RemoveClient 0]\<rparr>"


text \<open>A proxy with one connected session; the same after
  \<^verbatim>\<open>client.read_processor = lambda chunk: chunk[::-1]\<close> on that session; a block that raises.\<close>

definition one_session :: TCPProxy where
  "one_session = state_of (handle_client (TCPProxy_init True) ConnectOk)"

definition overridden :: TCPProxy where
  "overridden = set_client_read_processor 0 (Some reverse_processor) one_session"

text \<open>The run that leads to \<open>overridden\<close>, and operations that follow it: a \<^verbatim>\<open>set_delay\<close>, a new
  connection, and an assignment to the write processor of the overridden session.\<close>

definition overridden_system :: system where
  "overridden_system =
     run_ops [Accept, Connected 0 ConnectOk, SetReadProcessor 0 (Some reverse_processor)]
       (system_init True)"

definition later_ops :: "op list" where
  "later_ops =
     [SetDelay (Num (PyInt 1)) (Num (PyInt 0)), Accept,
      SetWriteProcessor 0 (Some (const_processor ''Never say hello''))]"

definition failing_block :: "TCPProxy \<Rightarrow> TCPProxy result" where
  "failing_block p = Raised (OtherError ''boom'') p"

text \<open>The timeouts of the sessions of the set, in the order of the set; a proxy without
  sessions after \<^verbatim>\<open>set_delay(-1)\<close>; a block that does nothing, and a block in which a client
  connects.\<close>

definition session_delays :: "TCPProxy \<Rightarrow> (nat \<times> pynum \<times> pynum) list" where
  "session_delays p =
     map (\<lambda>(k, c). (k, timeout (read_delay c), timeout (write_delay c))) (clients p)"

definition unchecked_default :: TCPProxy where
  "unchecked_default = (TCPProxy_init True)\<lparr>p_read_delay := Num (PyInt (- 1))\<rparr>"

definition empty_block :: "TCPProxy \<Rightarrow> TCPProxy result" where
  "empty_block p = Returned p"

definition accept_block :: "TCPProxy \<Rightarrow> TCPProxy result" where
  "accept_block p = handle_client p ConnectOk"

text \<open>A run in which the connection attempt of the first session fails.\<close>

definition failed_session :: system where
  "failed_session =
     run_op (Connected 0 (ConnectRaises ConnectionError)) (run_ops [Accept] (system_init True))"

text \<open>A proxy with two connected sessions, reached by a run; the session with the
  identity \<open>k\<close> in it; steps of the loop for the two children of \<^verbatim>\<open>disconnect_all\<close> in which the
  second one is cancelled while it awaits its tasks and a task of the first one ends with
  an exception.\<close>

definition session_of :: "nat \<Rightarrow> TCPProxyClient" where
  "session_of k =
     (TCPProxyClient_init True)\<lparr>connected := True, tasks := [TaskPending, TaskPending],
        closing_callbacks := [RemoveClient k]\<rparr>"

definition two_sessions :: TCPProxy where
  "two_sessions =
     proxy (run_ops [Accept, Connected 0 ConnectOk, Accept, Connected 1 ConnectOk]
              (system_init True))"

definition sample_ended :: "nat \<Rightarrow> exn option" where
  "sample_ended j = (if j = 1 then Some ConnectionError else None)"

definition sample_prefix :: "loop_event list" where
  "sample_prefix =
     [Child (Step 0), Child (Step 1), Child (CancelClose 1), Notify 1,
      Child (TaskEnds 0 0 None), Child (TaskEnds 0 1 (Some ConnectionError)),
      Child (Step 0), Child (Step 0)]"

definition sample_steps :: "loop_event list" where
  "sample_steps = sample_prefix @ [Notify 0]"

section \<open>Properties of the Delay\<close>

lemma py_lt0_not_ge0: "py_lt0 n \<Longrightarrow> \<not> py_ge0 n"
  by (cases n) auto

lemma set_timeout_invalid:
  "\<not> numeric v \<or> negative v \<Longrightarrow> set_timeout d v = Raised AssertionError d"
  by (cases v) (auto simp: set_timeout_def numeric_def negative_def dest: py_lt0_not_ge0)

lemma set_timeout_valid:
  assumes "v = Num n" "py_ge0 n"
  shows "set_timeout d v =
           Returned (d\<lparr>timeout := n,
                      future := (case future d of
                                   None \<Rightarrow> None
                                 | Some f \<Rightarrow> Some (resolve f))\<rparr>)"
  using assms
  by (auto simp: set_timeout_def resolve_def set_result_def Let_def split: option.splits)

lemma set_timeout_wakes_wait:
  assumes "non_negative v" "wait_outstanding d"
  shows "wait_resume d = None \<and>
         (\<exists>d'. set_timeout d v = Returned d' \<and>
            wait_resume d' = Some (Returned (d'\<lparr>future := None, lock := False\<rparr>),
                                   [ClearFuture, ReleaseLock]))"
proof -
  from assms(1) obtain n where n: "v = Num n" "py_ge0 n"
    by (cases v) (auto simp: non_negative_def)
  from assms(2) obtain f where f: "future d = Some f" "\<not> future_done f"
    by (auto simp: wait_outstanding_def split: option.splits)
  then have p: "fstate f = Pending"
    by (cases "fstate f") (simp_all add: future_done_def)
  have a: "wait_resume d = None"
    using f(1) p by (simp add: wait_resume_def)
  have "wait_resume (d\<lparr>timeout := n, future := Some (resolve f)\<rparr>) =
      Some (Returned (d\<lparr>timeout := n, future := Some (resolve f)\<rparr>\<lparr>future := None, lock := False\<rparr>),
            [ClearFuture, ReleaseLock])"
    using p by (simp add: wait_resume_def resolve_def set_result_def future_done_def)
  with set_timeout_valid [OF n, of d] f(1) a show ?thesis
    by simp
qed

text \<open>A \<^verbatim>\<open>wait()\<close> on a free Delay with the timeout 1 suspends on a new future whose timer is
  armed; with an int that is too large for a float it releases the lock and raises.\<close>

lemma wait_enter_suspends:
  "wait_enter (Delay_init\<lparr>timeout := PyInt 1\<rparr>) =
     (WaitOnFuture, waiting_delay (PyInt 1), [AcquireLock, CreateFuture (PyInt 1)])"
  by (simp add: wait_enter_def wait_acquired_def delayed_future_def call_later_def
        float_overflows_def Delay_init_def waiting_delay_def)

lemma wait_enter_overflow:
  "wait_enter (Delay_init\<lparr>timeout := PyInt (2 ^ 1024)\<rparr>) =
     (WaitRaised OverflowError, Delay_init\<lparr>timeout := PyInt (2 ^ 1024)\<rparr>,
      [AcquireLock, ClearFuture, ReleaseLock])"
  by (simp add: wait_enter_def wait_acquired_def delayed_future_def call_later_def
        float_overflows_def Delay_init_def)

lemma set_timeout_rejects:
  "\<not> non_negative v \<Longrightarrow> set_timeout d v = Raised AssertionError d"
  by (cases v) (auto simp: set_timeout_def non_negative_def)

lemma resolve_pending:
  "fstate f = Pending \<Longrightarrow>
   resolve f = f\<lparr>fstate := Finished True\<rparr> \<and>
   resolve (f\<lparr>fstate := Finished True\<rparr>) = f\<lparr>fstate := Finished True\<rparr>"
  by (simp add: resolve_def set_result_def future_done_def)

text \<open>
  C1. Setting the timeout of a Delay to a negative or non-numeric value raises the
  validation error (an AssertionError) and leaves the Delay as it was; so does every other
  value that is not a non-negative number (NaN, a float that is neither negative nor
  non-negative). Setting it to a non-negative number returns, stores that number and leaves
  the lock untouched; a wait that was outstanding (a future \<open>f\<close> that was not done) is
  resolved at the return of the setter: the future is \<open>f\<close> with the result True, its timer
  still armed, on which the firing of the timer changes nothing any more, and the \<^verbatim>\<open>wait()\<close>
  that was suspended on it, and stayed suspended before, goes on and returns, clearing the
  future and releasing the lock.
\<close>

theorem C1_set_timeout:
  "(\<not> numeric v \<or> negative v \<longrightarrow> set_timeout d v = Raised AssertionError d) \<and>
   (\<not> non_negative v \<longrightarrow> set_timeout d v = Raised AssertionError d) \<and>
   (non_negative v \<longrightarrow>
      (\<exists>d'. set_timeout d v = Returned d' \<and> Num (timeout d') = v \<and> lock d' = lock d \<and>
            (wait_outstanding d \<longrightarrow>
               (\<exists>f. future d = Some f \<and> future d' = Some (f\<lparr>fstate := Finished True\<rparr>) \<and>
                    resolve (f\<lparr>fstate := Finished True\<rparr>) = f\<lparr>fstate := Finished True\<rparr>) \<and>
               wait_resume d = None \<and>
               wait_resume d' = Some (Returned (d'\<lparr>future := None, lock := False\<rparr>),
                                      [ClearFuture, ReleaseLock])) \<and>
            (\<not> wait_outstanding d \<longrightarrow> future d' = future d)))"
proof (intro conjI impI)
  assume "\<not> numeric v \<or> negative v"
  then show "set_timeout d v = Raised AssertionError d"
    by (rule set_timeout_invalid)
next
  assume "\<not> non_negative v"
  then show "set_timeout d v = Raised AssertionError d"
    by (rule set_timeout_rejects)
next
  assume nn: "non_negative v"
  then obtain n where n: "v = Num n" "py_ge0 n"
    by (cases v) (auto simp: non_negative_def)
  let ?d' = "d\<lparr>timeout := n,
               future := (case future d of None \<Rightarrow> None | Some f \<Rightarrow> Some (resolve f))\<rparr>"
  have r: "set_timeout d v = Returned ?d'"
    using n by (rule set_timeout_valid)
  moreover have "Num (timeout ?d') = v" "lock ?d' = lock d"
    using n by simp_all
  moreover have "wait_outstanding d \<longrightarrow>
      (\<exists>f. future d = Some f \<and> future ?d' = Some (f\<lparr>fstate := Finished True\<rparr>) \<and>
           resolve (f\<lparr>fstate := Finished True\<rparr>) = f\<lparr>fstate := Finished True\<rparr>)"
  proof
    assume "wait_outstanding d"
    then obtain f where f: "future d = Some f" "\<not> future_done f"
      by (auto simp: wait_outstanding_def split: option.splits)
    then have "fstate f = Pending"
      by (cases "fstate f") (simp_all add: future_done_def)
    from resolve_pending [OF this] f(1)
    show "\<exists>f. future d = Some f \<and> future ?d' = Some (f\<lparr>fstate := Finished True\<rparr>) \<and>
           resolve (f\<lparr>fstate := Finished True\<rparr>) = f\<lparr>fstate := Finished True\<rparr>"
      by simp
  qed
  moreover have "wait_outstanding d \<longrightarrow> wait_resume d = None \<and>
      wait_resume ?d' = Some (Returned (?d'\<lparr>future := None, lock := False\<rparr>),
                             [ClearFuture, ReleaseLock])"
    using set_timeout_wakes_wait [OF nn, of d] r by auto
  moreover have "\<not> wait_outstanding d \<longrightarrow> future ?d' = future d"
    by (auto simp: wait_outstanding_def resolve_def split: option.splits)
  ultimately show "\<exists>d'. set_timeout d v = Returned d' \<and> Num (timeout d') = v \<and>
      lock d' = lock d \<and>
      (wait_outstanding d \<longrightarrow>
         (\<exists>f. future d = Some f \<and> future d' = Some (f\<lparr>fstate := Finished True\<rparr>) \<and>
              resolve (f\<lparr>fstate := Finished True\<rparr>) = f\<lparr>fstate := Finished True\<rparr>) \<and>
         wait_resume d = None \<and>
         wait_resume d' = Some (Returned (d'\<lparr>future := None, lock := False\<rparr>),
                                [ClearFuture, ReleaseLock])) \<and>
      (\<not> wait_outstanding d \<longrightarrow> future d' = future d)"
    by blast
qed

theorem C1_set_timeout_witness:
  "\<not> numeric (PyStr ''1'') \<and>
   set_timeout Delay_init (PyStr ''1'') = Raised AssertionError Delay_init \<and>
   negative (Num (PyInt (- 1))) \<and>
   set_timeout (waiting_delay (PyInt 1)) (Num (PyInt (- 1)))
     = Raised AssertionError (waiting_delay (PyInt 1)) \<and>
   \<not> non_negative (Num PyNaN) \<and>
   set_timeout (waiting_delay (PyInt 1)) (Num PyNaN)
     = Raised AssertionError (waiting_delay (PyInt 1)) \<and>
   non_negative (Num (PyFloat 0.5)) \<and>
   wait_outstanding (waiting_delay (PyInt 1)) \<and>
   wait_resume (waiting_delay (PyInt 1)) = None \<and>
   set_timeout (waiting_delay (PyInt 1)) (Num (PyFloat 0.5))
     = Returned \<lparr>timeout = PyFloat 0.5,
                 future = Some \<lparr>fstate = Finished True, timer = Some (PyInt 1)\<rparr>, lock = True\<rparr> \<and>
   resolve \<lparr>fstate = Finished True, timer = Some (PyInt 1)\<rparr>
     = \<lparr>fstate = Finished True, timer = Some (PyInt 1)\<rparr> \<and>
   wait_resume \<lparr>timeout = PyFloat 0.5,
                future = Some \<lparr>fstate = Finished True, timer = Some (PyInt 1)\<rparr>, lock = True\<rparr>
     = Some (Returned \<lparr>timeout = PyFloat 0.5, future = None, lock = False\<rparr>,
             [ClearFuture, ReleaseLock]) \<and>
   \<not> wait_outstanding Delay_init \<and>
   set_timeout Delay_init (Num (PyFloat 0.5))
     = Returned \<lparr>timeout = PyFloat 0.5, future = None, lock = False\<rparr>"
proof -
  let ?d = "waiting_delay (PyInt 1)"
  let ?f = "\<lparr>fstate = Pending, timer = Some (PyInt 1)\<rparr>"
  have d: "?d = \<lparr>timeout = PyInt 1, future = Some ?f, lock = True\<rparr>"
    by (simp add: waiting_delay_def)
  have nonnum: "\<not> numeric (PyStr ''1'')" by (simp add: numeric_def)
  have neg: "negative (Num (PyInt (- 1)))" by (simp add: negative_def)
  have nan: "\<not> non_negative (Num PyNaN)" by (simp add: non_negative_def)
  have nn: "non_negative (Num (PyFloat 0.5))" by (simp add: non_negative_def)
  have out: "wait_outstanding ?d"
    by (simp add: d wait_outstanding_def future_done_def)
  have idle: "\<not> wait_outstanding Delay_init"
    by (simp add: wait_outstanding_def Delay_init_def)
  from C1_set_timeout [of "PyStr ''1''" Delay_init] nonnum
  have z: "set_timeout Delay_init (PyStr ''1'') = Raised AssertionError Delay_init" by blast
  from C1_set_timeout [of "Num (PyInt (- 1))" ?d] neg
  have a: "set_timeout ?d (Num (PyInt (- 1))) = Raised AssertionError ?d" by blast
  from C1_set_timeout [of "Num PyNaN" ?d] nan
  have b: "set_timeout ?d (Num PyNaN) = Raised AssertionError ?d" by blast
  from C1_set_timeout [of "Num (PyFloat 0.5)" ?d] nn out
  obtain d' f where d': "set_timeout ?d (Num (PyFloat 0.5)) = Returned d'"
    "timeout d' = PyFloat 0.5" "lock d' = lock ?d" "future ?d = Some f"
    "future d' = Some (f\<lparr>fstate := Finished True\<rparr>)"
    "resolve (f\<lparr>fstate := Finished True\<rparr>) = f\<lparr>fstate := Finished True\<rparr>"
    "wait_resume ?d = None"
    "wait_resume d' = Some (Returned (d'\<lparr>future := None, lock := False\<rparr>),
                            [ClearFuture, ReleaseLock])"
    by auto
  from d'(4) have f: "f = ?f" by (simp add: d)
  from d'(2,3,5) have eq: "d' = \<lparr>timeout = PyFloat 0.5,
                 future = Some \<lparr>fstate = Finished True, timer = Some (PyInt 1)\<rparr>, lock = True\<rparr>"
    unfolding f by (cases d') (simp add: d)
  from d'(6) have rs: "resolve \<lparr>fstate = Finished True, timer = Some (PyInt 1)\<rparr>
     = \<lparr>fstate = Finished True, timer = Some (PyInt 1)\<rparr>"
    unfolding f by simp
  from d'(8) have w: "wait_resume \<lparr>timeout = PyFloat 0.5,
                future = Some \<lparr>fstate = Finished True, timer = Some (PyInt 1)\<rparr>, lock = True\<rparr>
     = Some (Returned \<lparr>timeout = PyFloat 0.5, future = None, lock = False\<rparr>,
             [ClearFuture, ReleaseLock])"
    unfolding eq by simp
  from C1_set_timeout [of "Num (PyFloat 0.5)" Delay_init] nn idle
  obtain d0 where d0: "set_timeout Delay_init (Num (PyFloat 0.5)) = Returned d0"
    "timeout d0 = PyFloat 0.5" "lock d0 = lock Delay_init" "future d0 = future Delay_init"
    by auto
  from d0(2-4) have eq0: "d0 = \<lparr>timeout = PyFloat 0.5, future = None, lock = False\<rparr>"
    by (cases d0) (simp add: Delay_init_def)
  from z a b d'(1,7) eq rs w d0(1) eq0 nonnum neg nan nn out idle show ?thesis by simp
qed

section \<open>Properties of the forwarding loop\<close>

lemma py_eq0_not_gt0: "py_eq0 n \<Longrightarrow> \<not> py_gt0 n"
  by (cases n) auto

lemma write_and_drain_no_wait:
  "write_and_drain buf it data = (acts, ctl) \<Longrightarrow> DelayWait \<notin> set acts"
  by (auto simp: write_and_drain_def split: option.splits if_splits)

lemma process_and_write_no_wait:
  "process_and_write buf key it chunk = (acts, ctl) \<Longrightarrow> DelayWait \<notin> set acts"
  by (auto simp: process_and_write_def split: option.splits sum.splits prod.splits
           dest: write_and_drain_no_wait)

lemma pipe_body_zero_no_wait:
  "py_eq0 (delay_timeout it) \<Longrightarrow> DelayWait \<notin> set (fst (pipe_body buf key it))"
  by (auto simp: pipe_body_def dest: py_eq0_not_gt0 process_and_write_no_wait
           split: sum.splits prod.splits)

lemma pipe_loop_zero_no_wait:
  "\<forall>it \<in> set its. py_eq0 (delay_timeout it) \<Longrightarrow> DelayWait \<notin> set (fst (pipe_loop buf key its))"
proof (induction its)
  case Nil
  then show ?case by simp
next
  case (Cons it its)
  have "DelayWait \<notin> set (fst (pipe_body buf key it))"
    using Cons.prems by (simp add: pipe_body_zero_no_wait)
  moreover have "DelayWait \<notin> set (fst (pipe_loop buf key its))"
    using Cons by simp
  ultimately show ?case
    by (auto split: prod.splits control.splits)
qed

lemma pipe_zero_no_wait:
  "\<forall>it \<in> set its. py_eq0 (delay_timeout it) \<Longrightarrow> DelayWait \<notin> set (fst (pipe buf key its fin))"
  using pipe_loop_zero_no_wait [of its buf key]
  by (auto simp: pipe_def close_writer_def split: prod.splits control.splits)

lemma pipe_body_zero_forwards:
  assumes "py_eq0 (delay_timeout it)" "read_result it = Inr chunk" "chunk \<noteq> []"
    "processors_now it key = Some f" "f chunk = Inr data" "write_raises it = None"
  shows "fst (pipe_body buf key it) =
           [Read (Inr chunk), Process chunk (Inr data), Write data] @ (if buf then [] else [Drain])"
  using assms
  by (auto simp: pipe_body_def process_and_write_def write_and_drain_def
           dest: py_eq0_not_gt0 split: option.splits)

text \<open>
  C4. On a Delay whose timeout equals zero, \<^verbatim>\<open>wait()\<close> returns at once: no suspension, no
  action (the lock is not acquired, no future is created) and the Delay is unchanged. In the
  forwarding loop, a chunk read while the timeout of the direction is zero is processed and
  written with no delay wait in between, and a run whose timeouts are all zero never waits
  on the Delay.
\<close>

theorem C4_zero_timeout_no_wait:
  "(py_eq0 (timeout d) \<longrightarrow> wait_enter d = (WaitReturned, d, [])) \<and>
   (py_eq0 (delay_timeout it) \<and> read_result it = Inr chunk \<and> chunk \<noteq> [] \<and>
    processors_now it key = Some f \<and> f chunk = Inr data \<and> write_raises it = None \<longrightarrow>
      fst (pipe_body buf key it) =
        [Read (Inr chunk), Process chunk (Inr data), Write data] @ (if buf then [] else [Drain])) \<and>
   ((\<forall>it \<in> set its. py_eq0 (delay_timeout it)) \<longrightarrow>
      DelayWait \<notin> set (fst (pipe buf key its fin)))"
proof (intro conjI impI)
  assume "py_eq0 (timeout d)"
  then show "wait_enter d = (WaitReturned, d, [])"
    by (simp add: wait_enter_def)
next
  assume "py_eq0 (delay_timeout it) \<and> read_result it = Inr chunk \<and> chunk \<noteq> [] \<and>
    processors_now it key = Some f \<and> f chunk = Inr data \<and> write_raises it = None"
  then show "fst (pipe_body buf key it) =
        [Read (Inr chunk), Process chunk (Inr data), Write data] @ (if buf then [] else [Drain])"
    using pipe_body_zero_forwards [of it chunk key f data buf] by simp
next
  assume "\<forall>it \<in> set its. py_eq0 (delay_timeout it)"
  then show "DelayWait \<notin> set (fst (pipe buf key its fin))"
    by (rule pipe_zero_no_wait)
qed


theorem C4_zero_timeout_no_wait_witness:
  "py_eq0 (timeout Delay_init) \<and>
   wait_enter Delay_init = (WaitReturned, Delay_init, []) \<and>
   fst (pipe_body True ''read'' (chunk_iteration ''Hello world'' (PyInt 0))) =
     [Read (Inr ''Hello world''), Process ''Hello world'' (Inr ''Hello world''),
      Write ''Hello world''] \<and>
   DelayWait \<notin> set (fst (pipe True ''read''
                            [chunk_iteration ''Hello world'' (PyInt 0), eof_iteration] None))"
  using C4_zero_timeout_no_wait [of Delay_init "chunk_iteration ''Hello world'' (PyInt 0)"
      "''Hello world''" "''read''" blank_processor "''Hello world''" True
      "[chunk_iteration ''Hello world'' (PyInt 0), eof_iteration]" None]
  by (simp add: Delay_init_def chunk_iteration_def eof_iteration_def blank_processor_def)

lemma write_and_drain_no_close:
  "write_and_drain buf it data = (acts, ctl) \<Longrightarrow> CloseWriter \<notin> set acts"
  by (auto simp: write_and_drain_def split: option.splits if_splits)

lemma process_and_write_no_close:
  "process_and_write buf key it chunk = (acts, ctl) \<Longrightarrow> CloseWriter \<notin> set acts"
  by (auto simp: process_and_write_def split: option.splits sum.splits prod.splits
           dest: write_and_drain_no_close)

lemma pipe_body_no_close: "CloseWriter \<notin> set (fst (pipe_body buf key it))"
  by (auto simp: pipe_body_def dest: process_and_write_no_close
           split: sum.splits prod.splits option.splits)

lemma pipe_loop_no_close: "CloseWriter \<notin> set (fst (pipe_loop buf key its))"
proof (induction its)
  case Nil
  then show ?case by simp
next
  case (Cons it its)
  with pipe_body_no_close [of buf key it] show ?case
    by (auto split: prod.splits control.splits)
qed

lemma pipe_loop_ends:
  "\<exists>it \<in> set its. at_eof it \<or> snd (pipe_body buf key it) \<noteq> Continue \<Longrightarrow>
   snd (pipe_loop buf key its) \<noteq> Continue"
proof (induction its)
  case Nil
  then show ?case by simp
next
  case (Cons it its)
  show ?case
  proof (cases "at_eof it \<or> snd (pipe_body buf key it) \<noteq> Continue")
    case True
    then show ?thesis
      by (auto split: prod.splits control.splits)
  next
    case False
    with Cons.prems have "\<exists>it \<in> set its. at_eof it \<or> snd (pipe_body buf key it) \<noteq> Continue"
      by auto
    then have "snd (pipe_loop buf key its) \<noteq> Continue"
      by (rule Cons.IH)
    then show ?thesis
      by (auto split: prod.splits control.splits)
  qed
qed

lemma pipe_ended:
  "snd (pipe buf key its fin) \<noteq> Running \<Longrightarrow>
   fst (pipe buf key its fin) = fst (pipe_loop buf key its) @ [CloseWriter, WaitClosed]"
  by (auto simp: pipe_def close_writer_def split: prod.splits control.splits)

lemma pipe_running:
  "snd (pipe buf key its fin) = Running \<Longrightarrow>
   fst (pipe buf key its fin) = fst (pipe_loop buf key its)"
  by (auto simp: pipe_def close_writer_def split: prod.splits control.splits option.splits)

lemma pipe_ends:
  "snd (pipe_loop buf key its) \<noteq> Continue \<Longrightarrow> snd (pipe buf key its fin) \<noteq> Running"
  by (auto simp: pipe_def close_writer_def split: prod.splits control.splits option.splits)

text \<open>
  C6. Whenever the forwarding loop has ended, by end of stream, by an empty read, by a
  cancellation or by any other exception raised in its body, the actions of \<^verbatim>\<open>pipe\<close> end
  with closing the writer and waiting for it to be closed, after everything the loop did;
  the loop itself never closes the writer. The loop does end as soon as the environment
  answers with end of stream, an empty chunk or an exception. While the loop is running
  the writer is not closed.
\<close>

theorem C6_pipe_closes_writer:
  "(snd (pipe buf key its fin) \<noteq> Running \<longrightarrow>
      (\<exists>pre. fst (pipe buf key its fin) = pre @ [CloseWriter, WaitClosed] \<and>
             CloseWriter \<notin> set pre)) \<and>
   ((\<exists>it \<in> set its. at_eof it \<or> snd (pipe_body buf key it) \<noteq> Continue) \<longrightarrow>
      snd (pipe buf key its fin) \<noteq> Running) \<and>
   (snd (pipe buf key its fin) = Running \<longrightarrow> CloseWriter \<notin> set (fst (pipe buf key its fin)))"
proof (intro conjI impI)
  assume "snd (pipe buf key its fin) \<noteq> Running"
  then have "fst (pipe buf key its fin) = fst (pipe_loop buf key its) @ [CloseWriter, WaitClosed]"
    by (rule pipe_ended)
  with pipe_loop_no_close [of buf key its]
  show "\<exists>pre. fst (pipe buf key its fin) = pre @ [CloseWriter, WaitClosed] \<and> CloseWriter \<notin> set pre"
    by blast
next
  assume "\<exists>it \<in> set its. at_eof it \<or> snd (pipe_body buf key it) \<noteq> Continue"
  then have "snd (pipe_loop buf key its) \<noteq> Continue"
    by (rule pipe_loop_ends)
  then show "snd (pipe buf key its fin) \<noteq> Running"
    by (rule pipe_ends)
next
  assume "snd (pipe buf key its fin) = Running"
  then have "fst (pipe buf key its fin) = fst (pipe_loop buf key its)"
    by (rule pipe_running)
  with pipe_loop_no_close [of buf key its]
  show "CloseWriter \<notin> set (fst (pipe buf key its fin))"
    by simp
qed

theorem C6_pipe_closes_writer_witness:
  "pipe False ''read'' [eof_iteration] None = ([CloseWriter, WaitClosed], Returns) \<and>
   pipe False ''read'' [chunk_iteration [] (PyInt 0)] None =
     ([Read (Inr []), CloseWriter, WaitClosed], Returns) \<and>
   pipe False ''read''
     [(chunk_iteration ''ab'' (PyInt 2))\<lparr>wait_result := Some CancelledError\<rparr>] None =
     ([Read (Inr ''ab''), DelayWait, CloseWriter, WaitClosed], Raises CancelledError) \<and>
   pipe False ''read''
     [(chunk_iteration ''ab'' (PyInt 0))\<lparr>drain_result := Some ConnectionError\<rparr>] None =
     ([Read (Inr ''ab''), Process ''ab'' (Inr ''ab''), Write ''ab'', Drain,
       CloseWriter, WaitClosed], Raises ConnectionError) \<and>
   snd (pipe False ''read''
     [(chunk_iteration ''ab'' (PyInt 2))\<lparr>wait_result := Some CancelledError\<rparr>] None)
     \<noteq> Running \<and>
   (\<exists>pre. fst (pipe False ''read''
          [(chunk_iteration ''ab'' (PyInt 2))\<lparr>wait_result := Some CancelledError\<rparr>] None)
       = pre @ [CloseWriter, WaitClosed] \<and> CloseWriter \<notin> set pre) \<and>
   snd (pipe False ''read'' [chunk_iteration ''ab'' (PyInt 2)] None) = Running \<and>
   CloseWriter \<notin> set (fst (pipe False ''read'' [chunk_iteration ''ab'' (PyInt 2)] None))"
proof -
  let ?c = "[(chunk_iteration ''ab'' (PyInt 2))\<lparr>wait_result := Some CancelledError\<rparr>]"
  let ?r = "[chunk_iteration ''ab'' (PyInt 2)]"
  have paths:
    "pipe False ''read'' [eof_iteration] None = ([CloseWriter, WaitClosed], Returns)"
    "pipe False ''read'' [chunk_iteration [] (PyInt 0)] None =
       ([Read (Inr []), CloseWriter, WaitClosed], Returns)"
    "pipe False ''read'' ?c None =
       ([Read (Inr ''ab''), DelayWait, CloseWriter, WaitClosed], Raises CancelledError)"
    "pipe False ''read''
       [(chunk_iteration ''ab'' (PyInt 0))\<lparr>drain_result := Some ConnectionError\<rparr>] None =
       ([Read (Inr ''ab''), Process ''ab'' (Inr ''ab''), Write ''ab'', Drain,
         CloseWriter, WaitClosed], Raises ConnectionError)"
    by (simp_all add: pipe_def pipe_body_def process_and_write_def write_and_drain_def
          chunk_iteration_def eof_iteration_def blank_processor_def close_writer_def)
  have h: "\<exists>it \<in> set ?c. at_eof it \<or> snd (pipe_body False ''read'' it) \<noteq> Continue"
    by (simp add: pipe_body_def chunk_iteration_def)
  have b: "snd (pipe False ''read'' ?r None) = Running"
    by (simp add: pipe_def pipe_body_def process_and_write_def write_and_drain_def
          chunk_iteration_def blank_processor_def)
  note c6 = C6_pipe_closes_writer [of False "''read''" ?c None]
  have a': "snd (pipe False ''read'' ?c None) \<noteq> Running"
    using c6 [THEN conjunct2, THEN conjunct1, rule_format, OF h] .
  have c: "\<exists>pre. fst (pipe False ''read'' ?c None) = pre @ [CloseWriter, WaitClosed] \<and>
             CloseWriter \<notin> set pre"
    using c6 [THEN conjunct1, rule_format, OF a'] .
  from C6_pipe_closes_writer [of False "''read''" ?r None] b
  have d: "CloseWriter \<notin> set (fst (pipe False ''read'' ?r None))"
    by blast
  from paths a' b c d show ?thesis by blast
qed

lemma chunks_read_append: "chunks_read (xs @ ys) = chunks_read xs @ chunks_read ys"
  by (induction xs rule: chunks_read.induct) auto

lemma chunks_processed_append:
  "chunks_processed (xs @ ys) = chunks_processed xs @ chunks_processed ys"
  by (induction xs rule: chunks_processed.induct) auto

lemma chunks_written_append: "chunks_written (xs @ ys) = chunks_written xs @ chunks_written ys"
  by (induction xs rule: chunks_written.induct) auto

lemma balanced_Nil: "balanced []"
  by (simp add: balanced_def)

lemma balanced_in_order: "balanced acts \<Longrightarrow> in_order acts"
  unfolding balanced_def in_order_def
  by (metis length_map order_refl take_all)

lemma balanced_append: "balanced xs \<Longrightarrow> balanced ys \<Longrightarrow> balanced (xs @ ys)"
  by (simp add: balanced_def chunks_read_append chunks_processed_append chunks_written_append)

lemma in_order_append:
  assumes "balanced xs" "in_order ys"
  shows "in_order (xs @ ys)"
proof -
  have l1: "length (chunks_processed xs) = length (chunks_read xs)"
    using assms(1) unfolding balanced_def by (metis length_map)
  have l2: "length (chunks_written xs) = length (chunks_processed xs)"
    using assms(1) unfolding balanced_def by (metis length_map)
  show ?thesis
    using assms l1 l2
    by (simp add: balanced_def in_order_def chunks_read_append chunks_processed_append
          chunks_written_append)
qed

lemma one_in_flight_append:
  assumes "balanced xs" "one_in_flight xs" "one_in_flight ys"
  shows "one_in_flight (xs @ ys)"
  unfolding one_in_flight_def
proof
  fix n
  have len: "length (chunks_read xs) = length (chunks_written xs)"
    using assms(1) unfolding balanced_def by (metis length_map)
  show "length (chunks_read (take n (xs @ ys))) \<le> Suc (length (chunks_written (take n (xs @ ys))))"
  proof (cases "n \<le> length xs")
    case True
    then show ?thesis
      using assms(2) by (simp add: one_in_flight_def)
  next
    case False
    then have "take n (xs @ ys) = xs @ take (n - length xs) ys"
      by simp
    then show ?thesis
      using assms(3) len
      by (simp add: one_in_flight_def chunks_read_append chunks_written_append)
  qed
qed

lemma chunks_read_take_le: "length (chunks_read (take n acts)) \<le> length (chunks_read acts)"
proof -
  have "chunks_read (take n acts @ drop n acts) = chunks_read (take n acts) @ chunks_read (drop n acts)"
    by (rule chunks_read_append)
  then have "chunks_read acts = chunks_read (take n acts) @ chunks_read (drop n acts)"
    by simp
  then have "length (chunks_read acts) =
               length (chunks_read (take n acts)) + length (chunks_read (drop n acts))"
    by (metis length_append)
  then show ?thesis by linarith
qed

lemma one_in_flight_single:
  assumes "length (chunks_read acts) \<le> 1"
  shows "one_in_flight acts"
  unfolding one_in_flight_def
proof
  fix n
  have "length (chunks_read (take n acts)) \<le> length (chunks_read acts)"
    by (rule chunks_read_take_le)
  with assms show "length (chunks_read (take n acts)) \<le> Suc (length (chunks_written (take n acts)))"
    by linarith
qed

lemma one_in_flight_append_quiet:
  assumes "one_in_flight xs" "chunks_read ys = []"
  shows "one_in_flight (xs @ ys)"
  unfolding one_in_flight_def
proof
  fix n
  show "length (chunks_read (take n (xs @ ys))) \<le> Suc (length (chunks_written (take n (xs @ ys))))"
  proof (cases "n \<le> length xs")
    case True
    then show ?thesis
      using assms(1) by (simp add: one_in_flight_def)
  next
    case False
    then have t: "take n (xs @ ys) = xs @ take (n - length xs) ys"
      by simp
    have "length (chunks_read (take (n - length xs) ys)) = 0"
      using chunks_read_take_le [of "n - length xs" ys] assms(2) by simp
    moreover have "length (chunks_read xs) \<le> Suc (length (chunks_written xs))"
      using assms(1) [unfolded one_in_flight_def, rule_format, of "length xs"] by simp
    ultimately show ?thesis
      unfolding t by (simp add: chunks_read_append chunks_written_append)
  qed
qed

lemma in_order_append_quiet:
  assumes "in_order xs" "chunks_read ys = []" "chunks_processed ys = []" "chunks_written ys = []"
  shows "in_order (xs @ ys)"
  using assms
  by (simp add: in_order_def chunks_read_append chunks_processed_append chunks_written_append)

lemma write_and_drain_chunks:
  "write_and_drain buf it data = (acts, ctl) \<Longrightarrow>
   chunks_read acts = [] \<and> chunks_processed acts = [] \<and>
   (chunks_written acts = [] \<or> chunks_written acts = [data]) \<and>
   (ctl = Continue \<longrightarrow> chunks_written acts = [data])"
  by (auto simp: write_and_drain_def split: option.splits if_splits)

lemma process_and_write_chunks:
  assumes "process_and_write buf key it chunk = (acts, ctl)"
  shows "chunks_read acts = [] \<and>
   (chunks_processed acts = [] \<and> chunks_written acts = [] \<and> ctl \<noteq> Continue \<or>
    (\<exists>f data. processors_now it key = Some f \<and> f chunk = Inr data \<and>
       chunks_processed acts = [(chunk, data)] \<and>
       (chunks_written acts = [] \<and> ctl \<noteq> Continue \<or> chunks_written acts = [data])))"
proof (cases "processors_now it key")
  case None
  with assms show ?thesis
    by (auto simp: process_and_write_def)
next
  case (Some f)
  show ?thesis
  proof (cases "f chunk")
    case (Inl e)
    with assms Some show ?thesis
      by (auto simp: process_and_write_def)
  next
    case (Inr data)
    obtain a c where w: "write_and_drain buf it data = (a, c)"
      by (cases "write_and_drain buf it data")
    from assms Some Inr w have eq: "acts = Process chunk (Inr data) # a" "ctl = c"
      by (simp_all add: process_and_write_def)
    from write_and_drain_chunks [OF w] Some Inr show ?thesis
      unfolding eq by auto
  qed
qed

lemma pipe_body_chunks:
  assumes "pipe_body buf key it = (acts, ctl)"
  shows "(chunks_read acts = [] \<and> chunks_processed acts = [] \<and> chunks_written acts = [] \<and>
      ctl \<noteq> Continue) \<or>
   (\<exists>chunk. chunk \<noteq> [] \<and> chunks_read acts = [chunk] \<and>
      (chunks_processed acts = [] \<and> chunks_written acts = [] \<and> ctl \<noteq> Continue \<or>
       (\<exists>f data. processors_now it key = Some f \<and> f chunk = Inr data \<and>
          chunks_processed acts = [(chunk, data)] \<and>
          (chunks_written acts = [] \<and> ctl \<noteq> Continue \<or> chunks_written acts = [data]))))"
proof (cases "read_result it")
  case (Inl e)
  with assms show ?thesis
    by (auto simp: pipe_body_def)
next
  case (Inr chunk)
  show ?thesis
  proof (cases "chunk = []")
    case True
    with assms Inr show ?thesis
      by (auto simp: pipe_body_def)
  next
    case ne: False
    obtain a c where pw: "process_and_write buf key it chunk = (a, c)"
      by (cases "process_and_write buf key it chunk")
    note pc = process_and_write_chunks [OF pw]
    show ?thesis
    proof (cases "py_gt0 (delay_timeout it)")
      case True
      show ?thesis
      proof (cases "wait_result it")
        case None
        with assms Inr ne True pw have eq: "acts = Read (Inr chunk) # DelayWait # a" "ctl = c"
          by (simp_all add: pipe_body_def)
        from pc ne show ?thesis
          unfolding eq by auto
      next
        case (Some e)
        with assms Inr ne True show ?thesis
          by (auto simp: pipe_body_def)
      qed
    next
      case False
      with assms Inr ne pw have eq: "acts = Read (Inr chunk) # a" "ctl = c"
        by (simp_all add: pipe_body_def)
      from pc ne show ?thesis
        unfolding eq by auto
    qed
  qed
qed

lemma pipe_body_fifo:
  assumes "pipe_body buf key it = (acts, ctl)"
  shows "in_order acts \<and> one_in_flight acts \<and> (ctl = Continue \<longrightarrow> balanced acts)"
proof -
  have "length (chunks_read acts) \<le> 1"
    using pipe_body_chunks [OF assms] by auto
  then have "one_in_flight acts"
    by (rule one_in_flight_single)
  moreover have "in_order acts"
    using pipe_body_chunks [OF assms] by (auto simp: in_order_def)
  moreover have "ctl = Continue \<longrightarrow> balanced acts"
    using pipe_body_chunks [OF assms] by (auto simp: balanced_def)
  ultimately show ?thesis by simp
qed

lemma pipe_loop_fifo:
  "pipe_loop buf key its = (acts, ctl) \<Longrightarrow>
   in_order acts \<and> one_in_flight acts \<and> (ctl = Continue \<longrightarrow> balanced acts)"
proof (induction its arbitrary: acts ctl)
  case Nil
  then show ?case
    by (simp add: in_order_def one_in_flight_def balanced_def)
next
  case (Cons it its)
  show ?case
  proof (cases "at_eof it")
    case True
    with Cons.prems show ?thesis
      by (simp add: in_order_def one_in_flight_def balanced_def)
  next
    case False
    obtain a1 c1 where b: "pipe_body buf key it = (a1, c1)"
      by (cases "pipe_body buf key it")
    note bf = pipe_body_fifo [OF b]
    show ?thesis
    proof (cases "c1 = Continue")
      case True
      obtain a2 c2 where l: "pipe_loop buf key its = (a2, c2)"
        by (cases "pipe_loop buf key its")
      note lf = Cons.IH [OF l]
      have eq: "acts = a1 @ a2" "ctl = c2"
        using Cons.prems False b True l by simp_all
      have bal: "balanced a1" using bf True by simp
      show ?thesis
        unfolding eq
        using bal bf lf
        by (simp add: in_order_append one_in_flight_append balanced_append)
    next
      case c: False
      then have "acts = a1" "ctl = c1"
        using Cons.prems False b by (cases c1; simp)+
      with bf show ?thesis by simp
    qed
  qed
qed

lemma pipe_fifo: "in_order (fst (pipe buf key its fin)) \<and> one_in_flight (fst (pipe buf key its fin))"
proof -
  obtain acts ctl where l: "pipe_loop buf key its = (acts, ctl)"
    by (cases "pipe_loop buf key its")
  note lf = pipe_loop_fifo [OF l]
  have q: "in_order (acts @ [CloseWriter, WaitClosed])" "one_in_flight (acts @ [CloseWriter, WaitClosed])"
    using lf by (simp_all add: in_order_append_quiet one_in_flight_append_quiet)
  have "fst (pipe buf key its fin) = acts \<or> fst (pipe buf key its fin) = acts @ [CloseWriter, WaitClosed]"
    using l by (cases ctl) (simp_all add: pipe_def close_writer_def)
  then show ?thesis
    using lf q by auto
qed


lemma pipe_body_processed:
  assumes "pipe_body buf key it = (acts, ctl)" "processors_now it key = Some f"
  shows "\<forall>(c, d) \<in> set (chunks_processed acts). f c = Inr d"
  using pipe_body_chunks [OF assms(1)] assms(2) by auto

lemma pipe_loop_processed:
  "\<forall>it \<in> set its. processors_now it key = Some f \<Longrightarrow>
   \<forall>(c, d) \<in> set (chunks_processed (fst (pipe_loop buf key its))). f c = Inr d"
proof (induction its)
  case Nil
  then show ?case by simp
next
  case (Cons it its)
  obtain a1 c1 where b: "pipe_body buf key it = (a1, c1)"
    by (cases "pipe_body buf key it")
  obtain a2 c2 where l: "pipe_loop buf key its = (a2, c2)"
    by (cases "pipe_loop buf key its")
  have p1: "\<forall>(c, d) \<in> set (chunks_processed a1). f c = Inr d"
    using pipe_body_processed [OF b] Cons.prems by simp
  have p2: "\<forall>(c, d) \<in> set (chunks_processed a2). f c = Inr d"
    using Cons l by simp
  show ?case
    using b l p1 p2
    by (cases c1) (auto simp: chunks_processed_append)
qed

lemma pipe_processed:
  assumes "\<forall>it \<in> set its. processors_now it key = Some f"
  shows "\<forall>(c, d) \<in> set (chunks_processed (fst (pipe buf key its fin))). f c = Inr d"
proof -
  obtain acts ctl where l: "pipe_loop buf key its = (acts, ctl)"
    by (cases "pipe_loop buf key its")
  have "chunks_processed (fst (pipe buf key its fin)) = chunks_processed acts"
    using l by (cases ctl) (simp_all add: pipe_def close_writer_def chunks_processed_append)
  then show ?thesis
    using pipe_loop_processed [OF assms, of buf] l by simp
qed

lemma map_processed:
  "\<forall>(c, d) \<in> set ps. f c = Inr d \<Longrightarrow> map Inr (map snd ps) = map f (map fst ps)"
  by (induction ps) auto

lemma in_order_written:
  assumes "in_order acts" "\<forall>(c, d) \<in> set (chunks_processed acts). f c = Inr d"
  shows "map Inr (chunks_written acts) =
           map f (take (length (chunks_written acts)) (chunks_read acts))"
proof -
  let ?R = "chunks_read acts" and ?P = "chunks_processed acts" and ?W = "chunks_written acts"
  have w: "?W = take (length ?W) (map snd ?P)" and r: "map fst ?P = take (length ?P) ?R"
    using assms(1) by (simp_all add: in_order_def)
  have "length ?W = length (take (length ?W) (map snd ?P))"
    using w by simp
  then have le: "length ?W \<le> length ?P"
    by simp
  have "map Inr ?W = map Inr (take (length ?W) (map snd ?P))"
    using w by simp
  also have "\<dots> = take (length ?W) (map Inr (map snd ?P))"
    by (simp only: take_map)
  also have "\<dots> = take (length ?W) (map f (map fst ?P))"
    by (simp only: map_processed [OF assms(2)])
  also have "\<dots> = take (length ?W) (map f (take (length ?P) ?R))"
    using r by simp
  also have "\<dots> = map f (take (length ?W) (take (length ?P) ?R))"
    by (simp only: take_map)
  also have "\<dots> = map f (take (length ?W) ?R)"
    using le by (simp add: min_def)
  finally show ?thesis .
qed

text \<open>
  C9. In every run of \<^verbatim>\<open>pipe\<close>, ended or still running: the chunks handed to the processor
  are, in order, the first chunks read; the data written are, in order, the first results of
  the processor; at every moment of the run at most one chunk has been read and not yet
  written, so the next chunk is never read before the previous one has been written. With
  one processor \<open>f\<close> in place during the run, the data written are the images under \<open>f\<close> of
  the chunks read, in the order in which they were read.
\<close>

theorem C9_pipe_fifo:
  "map fst (chunks_processed (fst (pipe buf key its fin))) =
     take (length (chunks_processed (fst (pipe buf key its fin))))
       (chunks_read (fst (pipe buf key its fin))) \<and>
   chunks_written (fst (pipe buf key its fin)) =
     take (length (chunks_written (fst (pipe buf key its fin))))
       (map snd (chunks_processed (fst (pipe buf key its fin)))) \<and>
   (\<forall>n. length (chunks_read (take n (fst (pipe buf key its fin))))
          \<le> Suc (length (chunks_written (take n (fst (pipe buf key its fin)))))) \<and>
   ((\<forall>it \<in> set its. processors_now it key = Some f) \<longrightarrow>
      map Inr (chunks_written (fst (pipe buf key its fin))) =
        map f (take (length (chunks_written (fst (pipe buf key its fin))))
                 (chunks_read (fst (pipe buf key its fin)))))"
proof -
  have io: "in_order (fst (pipe buf key its fin))" and fl: "one_in_flight (fst (pipe buf key its fin))"
    using pipe_fifo [of buf key its fin] by simp_all
  have "(\<forall>it \<in> set its. processors_now it key = Some f) \<longrightarrow>
      map Inr (chunks_written (fst (pipe buf key its fin))) =
        map f (take (length (chunks_written (fst (pipe buf key its fin))))
                 (chunks_read (fst (pipe buf key its fin))))"
    using in_order_written [OF io] pipe_processed by blast
  with io fl show ?thesis
    unfolding in_order_def one_in_flight_def by blast
qed

theorem C9_pipe_fifo_witness:
  "chunks_read (fst (pipe True ''read''
      [chunk_iteration ''ab'' (PyInt 0), chunk_iteration ''cd'' (PyInt 1), eof_iteration] None))
     = [''ab'', ''cd''] \<and>
   map Inr (chunks_written (fst (pipe True ''read''
      [chunk_iteration ''ab'' (PyInt 0), chunk_iteration ''cd'' (PyInt 1), eof_iteration] None)))
     = map blank_processor [''ab'', ''cd'']"
proof -
  let ?its = "[chunk_iteration ''ab'' (PyInt 0), chunk_iteration ''cd'' (PyInt 1), eof_iteration]"
  have h: "\<forall>it \<in> set ?its. processors_now it ''read'' = Some blank_processor"
    by (simp add: chunk_iteration_def eof_iteration_def)
  have acts: "fst (pipe True ''read'' ?its None) =
      [Read (Inr ''ab''), Process ''ab'' (Inr ''ab''), Write ''ab'',
       Read (Inr ''cd''), DelayWait, Process ''cd'' (Inr ''cd''), Write ''cd'',
       CloseWriter, WaitClosed]"
    by (simp add: pipe_def pipe_body_def process_and_write_def write_and_drain_def
          chunk_iteration_def eof_iteration_def blank_processor_def close_writer_def)
  from C9_pipe_fifo [of True "''read''" ?its None blank_processor] h
  have "map Inr (chunks_written (fst (pipe True ''read'' ?its None))) =
        map blank_processor (take (length (chunks_written (fst (pipe True ''read'' ?its None))))
                 (chunks_read (fst (pipe True ''read'' ?its None))))"
    by blast
  then have "map Inr (chunks_written (fst (pipe True ''read'' ?its None))) =
        map blank_processor [''ab'', ''cd'']"
    unfolding acts by simp
  moreover have "chunks_read (fst (pipe True ''read'' ?its None)) = [''ab'', ''cd'']"
    unfolding acts by simp
  ultimately show ?thesis by blast
qed

section \<open>Properties of a session\<close>

lemma task_end_done: "task_done (task_end x)"
  by (cases x) simp_all

lemma cancel_tasks_done: "\<forall>t \<in> set (snd (cancel_tasks ended ts)). task_done t"
  by (auto simp: cancel_tasks_def task_end_done)

lemma not_done_Nil: "\<forall>t \<in> set ts. task_done t \<Longrightarrow> not_done ts = []"
  by (auto simp: not_done_def filter_empty_conv)

lemma close_closed: "state_done (closing c) \<Longrightarrow> close ended c = ([], c)"
  by (simp add: close_def)

lemma close_open:
  "\<not> state_done (closing c) \<Longrightarrow>
   close ended c =
     (map CancelTask (not_done (tasks c)) @ map AwaitTask (not_done (tasks c)) @
        [SetClosingResult] @ map RunCallback (closing_callbacks c),
      c\<lparr>tasks := snd (cancel_tasks ended (tasks c)), closing := Finished True,
        closing_callbacks := []\<rparr>)"
  by (simp add: close_def cancel_tasks_def)

text \<open>
  C3. \<^verbatim>\<open>close()\<close> on a session whose \<^verbatim>\<open>closing\<close> future is done performs no action and leaves
  the session as it is. On a session that is not closed it requests the cancellation of
  every forwarding task that is not done, then awaits those tasks, whatever the way they
  end (cancelled or failed), and only after that gives \<^verbatim>\<open>closing\<close> its result; afterwards all
  tasks are done, the session is marked closed, and any further \<^verbatim>\<open>close()\<close> does nothing.
\<close>

theorem C3_close_idempotent:
  "(state_done (closing c) \<longrightarrow> close ended c = ([], c)) \<and>
   (\<not> state_done (closing c) \<longrightarrow>
      (\<exists>c'. close ended c =
              (map CancelTask (not_done (tasks c)) @ map AwaitTask (not_done (tasks c)) @
                 [SetClosingResult] @ map RunCallback (closing_callbacks c), c') \<and>
            closing c' = Finished True \<and>
            length (tasks c') = length (tasks c) \<and>
            (\<forall>i < length (tasks c).
               tasks c' ! i = (if task_done (tasks c ! i) then tasks c ! i else task_end (ended i))) \<and>
            (\<forall>t \<in> set (tasks c'). task_done t) \<and>
            close ended' c' = ([], c'))) \<and>
   close ended' (snd (close ended c)) = ([], snd (close ended c))"
proof (intro conjI impI)
  assume "state_done (closing c)"
  then show "close ended c = ([], c)" by (rule close_closed)
next
  assume op: "\<not> state_done (closing c)"
  let ?c' = "c\<lparr>tasks := snd (cancel_tasks ended (tasks c)), closing := Finished True,
        closing_callbacks := []\<rparr>"
  have "close ended c =
          (map CancelTask (not_done (tasks c)) @ map AwaitTask (not_done (tasks c)) @
             [SetClosingResult] @ map RunCallback (closing_callbacks c), ?c')"
    using op by (rule close_open)
  moreover have "closing ?c' = Finished True" by simp
  moreover have "length (tasks ?c') = length (tasks c)"
    by (simp add: cancel_tasks_def)
  moreover have "\<forall>i < length (tasks c).
      tasks ?c' ! i = (if task_done (tasks c ! i) then tasks c ! i else task_end (ended i))"
    by (simp add: cancel_tasks_def)
  moreover have "\<forall>t \<in> set (tasks ?c'). task_done t"
    using cancel_tasks_done [of ended "tasks c"] by simp
  moreover have "close ended' ?c' = ([], ?c')"
    by (simp add: close_def)
  ultimately show "\<exists>c'. close ended c =
              (map CancelTask (not_done (tasks c)) @ map AwaitTask (not_done (tasks c)) @
                 [SetClosingResult] @ map RunCallback (closing_callbacks c), c') \<and>
            closing c' = Finished True \<and>
            length (tasks c') = length (tasks c) \<and>
            (\<forall>i < length (tasks c).
               tasks c' ! i = (if task_done (tasks c ! i) then tasks c ! i else task_end (ended i))) \<and>
            (\<forall>t \<in> set (tasks c'). task_done t) \<and>
            close ended' c' = ([], c')"
    by blast
next
  show "close ended' (snd (close ended c)) = ([], snd (close ended c))"
    by (cases "state_done (closing c)") (simp_all add: close_def cancel_tasks_def)
qed

theorem C3_close_idempotent_witness:
  "\<not> state_done (closing connected_client) \<and>
   fst (close (\<lambda>i. None) connected_client) =
     [CancelTask 0, CancelTask 1, AwaitTask 0, AwaitTask 1, SetClosingResult,
      RunCallback (RemoveClient 0)] \<and>
   state_done (closing (snd (close (\<lambda>i. None) connected_client))) \<and>
   filter (\<lambda>t. \<not> task_done t) (tasks (snd (close (\<lambda>i. None) connected_client))) = [] \<and>
   close (\<lambda>i. None) (snd (close (\<lambda>i. None) connected_client)) =
     ([], snd (close (\<lambda>i. None) connected_client))"
proof -
  have o: "\<not> state_done (closing connected_client)"
    by (simp add: connected_client_def connect_def TCPProxyClient_init_def)
  have nd: "not_done (tasks connected_client) = [0, 1]"
    by (simp add: not_done_def connected_client_def connect_def TCPProxyClient_init_def upt_rec)
  have cb: "closing_callbacks connected_client = [RemoveClient 0]"
    by (simp add: connected_client_def)
  note c3 = C3_close_idempotent [of connected_client "\<lambda>i. None" "\<lambda>i. None"]
  from c3 [THEN conjunct2, THEN conjunct1, rule_format, OF o]
  obtain c' where c': "close (\<lambda>i. None) connected_client =
       (map CancelTask (not_done (tasks connected_client)) @
        map AwaitTask (not_done (tasks connected_client)) @
        [SetClosingResult] @ map RunCallback (closing_callbacks connected_client), c')"
    and cl: "closing c' = Finished True"
    and td: "\<forall>t \<in> set (tasks c'). task_done t"
    by (elim exE conjE)
  have f: "fst (close (\<lambda>i. None) connected_client) =
     [CancelTask 0, CancelTask 1, AwaitTask 0, AwaitTask 1, SetClosingResult,
      RunCallback (RemoveClient 0)]"
    unfolding c' nd cb by simp
  have s: "snd (close (\<lambda>i. None) connected_client) = c'"
    unfolding c' by simp
  have td': "filter (\<lambda>t. \<not> task_done t) (tasks c') = []"
    using td by (simp add: filter_empty_conv)
  have closed: "state_done (closing c')"
    using cl by simp
  have again: "close (\<lambda>i. None) c' = ([], c')"
    using C3_close_idempotent [of c' "\<lambda>i. None" "\<lambda>i. None", THEN conjunct1, rule_format,
        OF closed] .
  show ?thesis
    unfolding s using o f cl td' again by simp
qed

section \<open>Properties of the proxy\<close>

lemma clients_single: "client_ids p = [k] \<Longrightarrow> \<exists>c. clients p = [(k, c)]"
  by (cases "clients p") (auto simp: client_ids_def)

lemma read_processor_set_read: "read_processor (set_read_processor c v) = Some (stored_processor v)"
  by (simp add: read_processor_def set_read_processor_def stored_processor_def split: option.splits)

lemma write_processor_set_write:
  "write_processor (set_write_processor c v) = Some (stored_processor v)"
  by (simp add: write_processor_def set_write_processor_def stored_processor_def
           split: option.splits)

lemma read_processor_set_write:
  "read_processor (set_write_processor c v) = read_processor c"
  by (simp add: read_processor_def set_write_processor_def split: option.splits)

lemma write_processor_set_read:
  "write_processor (set_read_processor c v) = write_processor c"
  by (simp add: write_processor_def set_read_processor_def split: option.splits)

lemma one_session_clients:
  "clients one_session =
     [(0, (TCPProxyClient_init True)\<lparr>connected := True, tasks := [TaskPending, TaskPending],
            closing_callbacks := [RemoveClient 0]\<rparr>)]"
  by (simp add: one_session_def handle_client_def handle_client_begin_def handle_client_end_def
        TCPProxy_init_def TCPProxyClient_init_def Delay_init_def set_timeout_def put_client_def
        set_read_processor_def set_write_processor_def connect_def Let_def fun_upd_twist)

lemma overridden_clients:
  "clients overridden =
     [(0, set_read_processor
            ((TCPProxyClient_init True)\<lparr>connected := True, tasks := [TaskPending, TaskPending],
               closing_callbacks := [RemoveClient 0]\<rparr>) (Some reverse_processor))]"
  by (simp add: overridden_def set_client_read_processor_def one_session_clients put_client_def)

lemma set_timeout_non_negative:
  assumes "non_negative v"
  shows "\<exists>d'. set_timeout d v = Returned d' \<and> Num (timeout d') = v"
proof -
  from assms obtain n where n: "v = Num n" "py_ge0 n"
    by (cases v) (auto simp: non_negative_def)
  from set_timeout_valid [OF n] n(1) show ?thesis by simp
qed

lemma apply_delays_valid:
  assumes "non_negative r" "non_negative w"
  shows "\<exists>cs'. apply_delays r w cs = Returned cs' \<and> map fst cs' = map fst cs \<and>
           (\<forall>(k, c) \<in> set cs'. Num (timeout (read_delay c)) = r \<and>
                                 Num (timeout (write_delay c)) = w)"
proof (induction cs)
  case Nil
  then show ?case by simp
next
  case (Cons kc cs)
  obtain k c where kc: "kc = (k, c)" by (cases kc)
  obtain d where d: "set_timeout (read_delay c) r = Returned d" "Num (timeout d) = r"
    using set_timeout_non_negative [OF assms(1)] by blast
  obtain d' where d': "set_timeout (write_delay c) w = Returned d'" "Num (timeout d') = w"
    using set_timeout_non_negative [OF assms(2)] by blast
  from Cons obtain cs' where cs': "apply_delays r w cs = Returned cs'" "map fst cs' = map fst cs"
    "\<forall>(k, c) \<in> set cs'. Num (timeout (read_delay c)) = r \<and> Num (timeout (write_delay c)) = w"
    by blast
  have "apply_delays r w (kc # cs) = Returned ((k, c\<lparr>read_delay := d, write_delay := d'\<rparr>) # cs')"
    using kc d(1) d'(1) cs'(1) by simp
  with kc d(2) d'(2) cs'(2,3) show ?case by simp
qed

lemma apply_delays_ids: "map fst (state_of (apply_delays r w cs)) = map fst cs"
  by (induction cs) (auto split: result.splits)

lemma set_delay_ids: "client_ids (state_of (set_delay p r w)) = client_ids p"
  using apply_delays_ids [of r w "clients p"]
  by (auto simp: set_delay_def client_ids_def split: result.splits)

lemma set_delay_valid:
  assumes "non_negative r" "non_negative w"
  shows "\<exists>p'. set_delay p r w = Returned p' \<and> client_ids p' = client_ids p \<and>
           (\<forall>(k, c) \<in> set (clients p'). Num (timeout (read_delay c)) = r \<and>
                                          Num (timeout (write_delay c)) = w) \<and>
           p_read_delay p' = r \<and> p_write_delay p' = w \<and>
           p_read_processor p' = p_read_processor p \<and>
           p_write_processor p' = p_write_processor p \<and> next_id p' = next_id p"
proof -
  from apply_delays_valid [OF assms, of "clients p"]
  obtain cs' where cs': "apply_delays r w (clients p) = Returned cs'"
    "map fst cs' = map fst (clients p)"
    "\<forall>(k, c) \<in> set cs'. Num (timeout (read_delay c)) = r \<and> Num (timeout (write_delay c)) = w"
    by blast
  then show ?thesis
    by (simp add: set_delay_def client_ids_def)
qed

lemma set_delay_raised:
  "set_delay p r w = Raised e p' \<Longrightarrow>
   p_read_delay p' = p_read_delay p \<and> p_write_delay p' = p_write_delay p"
  by (auto simp: set_delay_def split: result.splits)


lemma replace_absent:
  "k \<notin> set (map fst cs) \<Longrightarrow> map (\<lambda>(j, c0). if j = k then (j, c) else (j, c0)) cs = cs"
  by (induction cs) auto

lemma put_client_last:
  assumes "k \<notin> set (client_ids p)"
  shows "clients (put_client k c (p\<lparr>clients := clients p @ [(k, c0)], next_id := n\<rparr>)) =
           clients p @ [(k, c)]"
  using assms by (simp add: put_client_def client_ids_def replace_absent)

lemma put_client_fields:
  "p_read_delay (put_client k c p) = p_read_delay p"
  "p_write_delay (put_client k c p) = p_write_delay p"
  "p_read_processor (put_client k c p) = p_read_processor p"
  "p_write_processor (put_client k c p) = p_write_processor p"
  "p_buffered (put_client k c p) = p_buffered p"
  "next_id (put_client k c p) = next_id p"
  by (simp_all add: put_client_def)

lemma set_processors_delays:
  "read_delay (set_read_processor c v) = read_delay c"
  "write_delay (set_read_processor c v) = write_delay c"
  "read_delay (set_write_processor c v) = read_delay c"
  "write_delay (set_write_processor c v) = write_delay c"
  by (simp_all add: set_read_processor_def set_write_processor_def split: option.splits)

lemma handle_client_begin_valid:
  assumes "non_negative (p_read_delay p)" "non_negative (p_write_delay p)"
    "next_id p \<notin> set (client_ids p)"
  shows "\<exists>p' c. handle_client_begin p = Returned p' \<and>
           clients p' = clients p @ [(next_id p, c)] \<and>
           Num (timeout (read_delay c)) = p_read_delay p \<and>
           Num (timeout (write_delay c)) = p_write_delay p \<and>
           read_processor c = Some (stored_processor (p_read_processor p)) \<and>
           write_processor c = Some (stored_processor (p_write_processor p)) \<and>
           p_read_delay p' = p_read_delay p \<and> p_write_delay p' = p_write_delay p \<and>
           p_read_processor p' = p_read_processor p \<and>
           p_write_processor p' = p_write_processor p"
proof -
  let ?client = "TCPProxyClient_init (p_buffered p)"
  obtain d where d: "set_timeout (read_delay ?client) (p_read_delay p) = Returned d"
    "Num (timeout d) = p_read_delay p"
    using set_timeout_non_negative [OF assms(1)] by blast
  obtain d' where d': "set_timeout (write_delay ?client) (p_write_delay p) = Returned d'"
    "Num (timeout d') = p_write_delay p"
    using set_timeout_non_negative [OF assms(2)] by blast
  let ?c = "set_write_processor
              (set_read_processor (?client\<lparr>read_delay := d, write_delay := d'\<rparr>)
                 (p_read_processor p))
              (p_write_processor p)"
  let ?p0 = "p\<lparr>clients := clients p @ [(next_id p, ?client)], next_id := Suc (next_id p)\<rparr>"
  have r: "handle_client_begin p = Returned (put_client (next_id p) ?c ?p0)"
    using d(1) d'(1) by (simp add: handle_client_begin_def Let_def)
  have cl: "clients (put_client (next_id p) ?c ?p0) = clients p @ [(next_id p, ?c)]"
    using assms(3) by (rule put_client_last)
  have seeds: "Num (timeout (read_delay ?c)) = p_read_delay p"
    "Num (timeout (write_delay ?c)) = p_write_delay p"
    "read_processor ?c = Some (stored_processor (p_read_processor p))"
    "write_processor ?c = Some (stored_processor (p_write_processor p))"
    using d(2) d'(2)
    by (simp_all add: set_processors_delays read_processor_set_read write_processor_set_write
          read_processor_set_write)
  have "p_read_delay (put_client (next_id p) ?c ?p0) = p_read_delay p"
    "p_write_delay (put_client (next_id p) ?c ?p0) = p_write_delay p"
    "p_read_processor (put_client (next_id p) ?c ?p0) = p_read_processor p"
    "p_write_processor (put_client (next_id p) ?c ?p0) = p_write_processor p"
    by (simp_all add: put_client_fields)
  with r cl seeds show ?thesis by blast
qed

lemma one_session_fields:
  "p_read_delay one_session = Num (PyInt 0)" "p_write_delay one_session = Num (PyInt 0)"
  "next_id one_session = 1" "client_ids one_session = [0]"
  by (simp_all add: one_session_def handle_client_def handle_client_begin_def
        handle_client_end_def TCPProxy_init_def TCPProxyClient_init_def Delay_init_def
        set_timeout_def put_client_def set_read_processor_def set_write_processor_def
        connect_def Let_def client_ids_def)

lemma one_session_half_set:
  "set_delay one_session (Num (PyInt 1)) (Num (PyInt (- 1))) =
     Raised AssertionError
       (one_session\<lparr>clients :=
          [(0, (TCPProxyClient_init True)\<lparr>connected := True, tasks := [TaskPending, TaskPending],
                  closing_callbacks := [RemoveClient 0],
                  read_delay := Delay_init\<lparr>timeout := PyInt 1\<rparr>\<rparr>)]\<rparr>)"
  by (simp add: set_delay_def one_session_clients set_timeout_def TCPProxyClient_init_def
        Delay_init_def)

text \<open>
  C5 as the specification states it does not hold for delays that the setter of the
  timeout rejects. \<^verbatim>\<open>set_delay(-1)\<close> on a proxy without sessions returns and stores \<open>-1\<close> as
  the default; the accept handler then adds the new session to the set and raises at the
  first assignment, so the session keeps the timeouts 0 and 0, not the default. And
  \<^verbatim>\<open>set_delay(1, -1)\<close> on a proxy with one session raises after the read timeout of that
  session has been written: its write timeout is still 0.
\<close>

theorem C5_invalid_delay_counterexample:
  "set_delay (TCPProxy_init True) (Num (PyInt (- 1))) (Num (PyInt 0)) = Returned unchecked_default \<and>
   p_read_delay unchecked_default = Num (PyInt (- 1)) \<and>
   raised (handle_client_begin unchecked_default) = Some AssertionError \<and>
   session_delays (state_of (handle_client_begin unchecked_default)) = [(0, PyInt 0, PyInt 0)] \<and>
   raised (set_delay one_session (Num (PyInt 1)) (Num (PyInt (- 1)))) = Some AssertionError \<and>
   session_delays (state_of (set_delay one_session (Num (PyInt 1)) (Num (PyInt (- 1)))))
     = [(0, PyInt 1, PyInt 0)]"
proof -
  have a: "set_delay (TCPProxy_init True) (Num (PyInt (- 1))) (Num (PyInt 0)) =
      Returned unchecked_default"
    by (simp add: set_delay_def TCPProxy_init_def unchecked_default_def)
  have b: "p_read_delay unchecked_default = Num (PyInt (- 1))"
    by (simp add: unchecked_default_def)
  have c: "handle_client_begin unchecked_default =
      Raised AssertionError
        (unchecked_default\<lparr>clients := [(0, TCPProxyClient_init True)], next_id := 1\<rparr>)"
    by (simp add: handle_client_begin_def unchecked_default_def TCPProxy_init_def
          TCPProxyClient_init_def Delay_init_def set_timeout_def put_client_def Let_def)
  have d: "session_delays (state_of (handle_client_begin unchecked_default)) =
      [(0, PyInt 0, PyInt 0)]"
    unfolding c by (simp add: session_delays_def TCPProxyClient_init_def Delay_init_def)
  have e: "session_delays (state_of (set_delay one_session (Num (PyInt 1)) (Num (PyInt (- 1)))))
     = [(0, PyInt 1, PyInt 0)]"
    unfolding one_session_half_set
    by (simp add: session_delays_def TCPProxyClient_init_def Delay_init_def)
  have r: "raised (set_delay one_session (Num (PyInt 1)) (Num (PyInt (- 1)))) = Some AssertionError"
    unfolding one_session_half_set by simp
  have r0: "raised (handle_client_begin unchecked_default) = Some AssertionError"
    unfolding c by simp
  from a b r0 d r e show ?thesis by simp
qed

text \<open>
  C5, as amended. When the defaults of the Proxy are non-negative numbers, the accept handler adds one
  new session to the set whose read and write timeouts are the current defaults and whose
  read and write processors are what the setters store for the current default
  processors; the defaults stay as they are. A Proxy-level \<^verbatim>\<open>set_delay(read, write)\<close> with
  non-negative numbers returns, keeps the set of sessions, leaves every session of the set
  with the timeouts \<open>read\<close> and \<open>write\<close>, and stores both as the defaults. The sessions are
  written before the defaults: a \<^verbatim>\<open>set_delay\<close> call that raises has not touched the defaults.
\<close>

theorem C5_snapshot_and_live_update:
  "(non_negative (p_read_delay p) \<and> non_negative (p_write_delay p) \<and>
    next_id p \<notin> set (client_ids p) \<longrightarrow>
      (\<exists>p' c. handle_client_begin p = Returned p' \<and>
           clients p' = clients p @ [(next_id p, c)] \<and>
           Num (timeout (read_delay c)) = p_read_delay p \<and>
           Num (timeout (write_delay c)) = p_write_delay p \<and>
           read_processor c = Some (stored_processor (p_read_processor p)) \<and>
           write_processor c = Some (stored_processor (p_write_processor p)) \<and>
           p_read_delay p' = p_read_delay p \<and> p_write_delay p' = p_write_delay p \<and>
           p_read_processor p' = p_read_processor p \<and>
           p_write_processor p' = p_write_processor p)) \<and>
   (non_negative r \<and> non_negative w \<longrightarrow>
      (\<exists>p'. set_delay p r w = Returned p' \<and> client_ids p' = client_ids p \<and>
           (\<forall>(k, c) \<in> set (clients p'). Num (timeout (read_delay c)) = r \<and>
                                          Num (timeout (write_delay c)) = w) \<and>
           p_read_delay p' = r \<and> p_write_delay p' = w)) \<and>
   (\<forall>e p'. set_delay p r w = Raised e p' \<longrightarrow>
      p_read_delay p' = p_read_delay p \<and> p_write_delay p' = p_write_delay p)"
proof -
  have a: "non_negative (p_read_delay p) \<and> non_negative (p_write_delay p) \<and>
    next_id p \<notin> set (client_ids p) \<longrightarrow>
      (\<exists>p' c. handle_client_begin p = Returned p' \<and>
           clients p' = clients p @ [(next_id p, c)] \<and>
           Num (timeout (read_delay c)) = p_read_delay p \<and>
           Num (timeout (write_delay c)) = p_write_delay p \<and>
           read_processor c = Some (stored_processor (p_read_processor p)) \<and>
           write_processor c = Some (stored_processor (p_write_processor p)) \<and>
           p_read_delay p' = p_read_delay p \<and> p_write_delay p' = p_write_delay p \<and>
           p_read_processor p' = p_read_processor p \<and>
           p_write_processor p' = p_write_processor p)"
    using handle_client_begin_valid [of p] by blast
  have b: "non_negative r \<and> non_negative w \<longrightarrow>
      (\<exists>p'. set_delay p r w = Returned p' \<and> client_ids p' = client_ids p \<and>
           (\<forall>(k, c) \<in> set (clients p'). Num (timeout (read_delay c)) = r \<and>
                                          Num (timeout (write_delay c)) = w) \<and>
           p_read_delay p' = r \<and> p_write_delay p' = w)"
    using set_delay_valid [of r w p] by blast
  have c: "\<forall>e p'. set_delay p r w = Raised e p' \<longrightarrow>
      p_read_delay p' = p_read_delay p \<and> p_write_delay p' = p_write_delay p"
    using set_delay_raised by blast
  from a b c show ?thesis by (intro conjI)
qed


theorem C5_snapshot_and_live_update_witness:
  "non_negative (p_read_delay one_session) \<and> non_negative (p_write_delay one_session) \<and>
   next_id one_session \<notin> set (client_ids one_session) \<and>
   (\<exists>c. state_of (handle_client_begin one_session) =
           one_session\<lparr>clients := clients one_session @ [(1, c)], next_id := 2\<rparr> \<and>
        timeout (read_delay c) = PyInt 0 \<and> timeout (write_delay c) = PyInt 0 \<and>
        read_processor c = Some blank_processor \<and> write_processor c = Some blank_processor) \<and>
   non_negative (Num (PyFloat 0.1)) \<and> non_negative (Num (PyInt 0)) \<and>
   raised (set_delay one_session (Num (PyFloat 0.1)) (Num (PyInt 0))) = None \<and>
   p_read_delay (state_of (set_delay one_session (Num (PyFloat 0.1)) (Num (PyInt 0))))
     = Num (PyFloat 0.1) \<and>
   map (\<lambda>(k, c). (k, timeout (read_delay c), timeout (write_delay c)))
     (clients (state_of (set_delay one_session (Num (PyFloat 0.1)) (Num (PyInt 0)))))
     = [(0, PyFloat 0.1, PyInt 0)] \<and>
   raised (set_delay one_session (Num (PyInt 1)) (Num (PyInt (- 1)))) = Some AssertionError \<and>
   map (\<lambda>(k, c). (k, timeout (read_delay c), timeout (write_delay c)))
     (clients (state_of (set_delay one_session (Num (PyInt 1)) (Num (PyInt (- 1))))))
     = [(0, PyInt 1, PyInt 0)] \<and>
   p_read_delay (state_of (set_delay one_session (Num (PyInt 1)) (Num (PyInt (- 1)))))
     = Num (PyInt 0) \<and>
   p_write_delay (state_of (set_delay one_session (Num (PyInt 1)) (Num (PyInt (- 1)))))
     = Num (PyInt 0)"
proof -
  have h1: "non_negative (p_read_delay one_session) \<and> non_negative (p_write_delay one_session) \<and>
    next_id one_session \<notin> set (client_ids one_session)"
    by (simp add: one_session_fields non_negative_def)
  have h2: "non_negative (Num (PyFloat 0.1)) \<and> non_negative (Num (PyInt 0))"
    by (simp add: non_negative_def)
  note c5 = C5_snapshot_and_live_update [of one_session "Num (PyFloat 0.1)" "Num (PyInt 0)"]
  from c5 [THEN conjunct1, rule_format, OF h1]
  obtain p' c where a: "handle_client_begin one_session = Returned p'"
      "clients p' = clients one_session @ [(next_id one_session, c)]"
      "Num (timeout (read_delay c)) = p_read_delay one_session"
      "Num (timeout (write_delay c)) = p_write_delay one_session"
      "read_processor c = Some (stored_processor (p_read_processor one_session))"
      "write_processor c = Some (stored_processor (p_write_processor one_session))"
    by (elim exE conjE)
  have p': "p' = one_session\<lparr>clients := clients p', next_id := 2\<rparr>"
    using a(1) by (auto simp: handle_client_begin_def Let_def put_client_def one_session_fields
        split: result.splits)
  have procs: "p_read_processor one_session = None" "p_write_processor one_session = None"
    by (simp_all add: one_session_def handle_client_def handle_client_begin_def
        handle_client_end_def TCPProxy_init_def TCPProxyClient_init_def Delay_init_def
        set_timeout_def put_client_def set_read_processor_def set_write_processor_def
        connect_def Let_def)
  have A: "\<exists>c. state_of (handle_client_begin one_session) =
           one_session\<lparr>clients := clients one_session @ [(1, c)], next_id := 2\<rparr> \<and>
        timeout (read_delay c) = PyInt 0 \<and> timeout (write_delay c) = PyInt 0 \<and>
        read_processor c = Some blank_processor \<and> write_processor c = Some blank_processor"
    using a p' procs by (auto simp: one_session_fields stored_processor_def intro!: exI [of _ c])
  from c5 [THEN conjunct2, THEN conjunct1, rule_format, OF h2]
  obtain q where b: "set_delay one_session (Num (PyFloat 0.1)) (Num (PyInt 0)) = Returned q"
      "client_ids q = client_ids one_session"
      "\<forall>(k, c) \<in> set (clients q). Num (timeout (read_delay c)) = Num (PyFloat 0.1) \<and>
                                    Num (timeout (write_delay c)) = Num (PyInt 0)"
      "p_read_delay q = Num (PyFloat 0.1)"
    by (elim exE conjE)
  from b(2) obtain c0 where c0: "clients q = [(0, c0)]"
    using clients_single by (auto simp: one_session_fields)
  have B: "map (\<lambda>(k, c). (k, timeout (read_delay c), timeout (write_delay c))) (clients q)
     = [(0, PyFloat 0.1, PyInt 0)]"
    using b(3) unfolding c0 by simp
  note half = one_session_half_set
  from C5_snapshot_and_live_update [of one_session "Num (PyInt 1)" "Num (PyInt (- 1))",
      THEN conjunct2, THEN conjunct2, rule_format, OF half]
  have C: "p_read_delay (state_of (set_delay one_session (Num (PyInt 1)) (Num (PyInt (- 1)))))
             = Num (PyInt 0)"
    "p_write_delay (state_of (set_delay one_session (Num (PyInt 1)) (Num (PyInt (- 1)))))
             = Num (PyInt 0)"
    unfolding half by (simp_all add: one_session_fields)
  have D: "raised (set_delay one_session (Num (PyInt 1)) (Num (PyInt (- 1)))) = Some AssertionError"
    "map (\<lambda>(k, c). (k, timeout (read_delay c), timeout (write_delay c)))
       (clients (state_of (set_delay one_session (Num (PyInt 1)) (Num (PyInt (- 1))))))
     = [(0, PyInt 1, PyInt 0)]"
    unfolding half by (simp_all add: TCPProxyClient_init_def Delay_init_def)
  show ?thesis
    unfolding b(1) using h1 h2 A B C D b(4) by simp
qed

text \<open>
  C7 as the specification states it does not hold for delays that the setter of the
  timeout rejects. \<^verbatim>\<open>slowdown(1, -1)\<close> on a proxy with one session raises in its first
  \<^verbatim>\<open>set_delay\<close>, before \<^verbatim>\<open>try\<close>: the block does not run, nothing is restored and the session is
  left with the read timeout 1, where the defaults at entry were 0 and 0. And on a proxy
  whose default is the \<open>-1\<close> that \<^verbatim>\<open>set_delay(-1)\<close> stored while the set was empty,
  \<^verbatim>\<open>slowdown(1, 2)\<close> around a block in which a client connects raises in the restoring
  \<^verbatim>\<open>set_delay\<close> and leaves the defaults at 1 and 2.
\<close>

theorem C7_invalid_delay_counterexample:
  "defaults_of one_session = (Num (PyInt 0), Num (PyInt 0)) \<and>
   session_delays one_session = [(0, PyInt 0, PyInt 0)] \<and>
   raised (slowdown one_session (Num (PyInt 1)) (Num (PyInt (- 1))) empty_block)
     = Some AssertionError \<and>
   session_delays (state_of (slowdown one_session (Num (PyInt 1)) (Num (PyInt (- 1))) empty_block))
     = [(0, PyInt 1, PyInt 0)] \<and>
   defaults_of unchecked_default = (Num (PyInt (- 1)), Num (PyInt 0)) \<and>
   raised (slowdown unchecked_default (Num (PyInt 1)) (Num (PyInt 2)) accept_block)
     = Some AssertionError \<and>
   defaults_of (state_of (slowdown unchecked_default (Num (PyInt 1)) (Num (PyInt 2)) accept_block))
     = (Num (PyInt 1), Num (PyInt 2))"
proof -
  have a: "defaults_of one_session = (Num (PyInt 0), Num (PyInt 0))"
    by (simp add: defaults_of_def one_session_fields)
  have b: "session_delays one_session = [(0, PyInt 0, PyInt 0)]"
    by (simp add: session_delays_def one_session_clients TCPProxyClient_init_def Delay_init_def)
  have c: "slowdown one_session (Num (PyInt 1)) (Num (PyInt (- 1))) empty_block =
      set_delay one_session (Num (PyInt 1)) (Num (PyInt (- 1)))"
    unfolding slowdown_def one_session_half_set by simp
  have d: "session_delays (state_of (set_delay one_session (Num (PyInt 1)) (Num (PyInt (- 1)))))
     = [(0, PyInt 1, PyInt 0)]"
    unfolding one_session_half_set
    by (simp add: session_delays_def TCPProxyClient_init_def Delay_init_def)
  have e: "defaults_of unchecked_default = (Num (PyInt (- 1)), Num (PyInt 0))"
    by (simp add: defaults_of_def unchecked_default_def TCPProxy_init_def)
  have f: "set_delay unchecked_default (Num (PyInt 1)) (Num (PyInt 2)) =
      Returned (unchecked_default\<lparr>p_read_delay := Num (PyInt 1), p_write_delay := Num (PyInt 2)\<rparr>)"
    by (simp add: set_delay_def unchecked_default_def TCPProxy_init_def)
  have g: "\<exists>c. accept_block
            (unchecked_default\<lparr>p_read_delay := Num (PyInt 1), p_write_delay := Num (PyInt 2)\<rparr>) =
          Returned (unchecked_default\<lparr>p_read_delay := Num (PyInt 1), p_write_delay := Num (PyInt 2),
                      clients := [(0, c)], next_id := 1\<rparr>)"
    by (simp add: accept_block_def handle_client_def handle_client_begin_def
          handle_client_end_def unchecked_default_def TCPProxy_init_def TCPProxyClient_init_def
          Delay_init_def set_timeout_def put_client_def set_read_processor_def
          set_write_processor_def connect_def Let_def)
  then obtain c0 where g0: "accept_block
            (unchecked_default\<lparr>p_read_delay := Num (PyInt 1), p_write_delay := Num (PyInt 2)\<rparr>) =
          Returned (unchecked_default\<lparr>p_read_delay := Num (PyInt 1), p_write_delay := Num (PyInt 2),
                      clients := [(0, c0)], next_id := 1\<rparr>)"
    by blast
  have h: "slowdown unchecked_default (Num (PyInt 1)) (Num (PyInt 2)) accept_block =
      Raised AssertionError
        (unchecked_default\<lparr>p_read_delay := Num (PyInt 1), p_write_delay := Num (PyInt 2),
                      clients := [(0, c0)], next_id := 1\<rparr>)"
    unfolding slowdown_def f
    by (simp add: g0 Let_def) (simp add: set_delay_def set_timeout_def unchecked_default_def
          TCPProxy_init_def)
  have r1: "raised (slowdown one_session (Num (PyInt 1)) (Num (PyInt (- 1))) empty_block)
     = Some AssertionError"
    unfolding c one_session_half_set by simp
  have d1: "session_delays
      (state_of (slowdown one_session (Num (PyInt 1)) (Num (PyInt (- 1))) empty_block))
     = [(0, PyInt 1, PyInt 0)]"
    unfolding c by (rule d)
  have r2: "raised (slowdown unchecked_default (Num (PyInt 1)) (Num (PyInt 2)) accept_block)
     = Some AssertionError"
    unfolding h by simp
  have d2: "defaults_of
      (state_of (slowdown unchecked_default (Num (PyInt 1)) (Num (PyInt 2)) accept_block))
     = (Num (PyInt 1), Num (PyInt 2))"
    unfolding h by (simp add: defaults_of_def)
  from a b r1 d1 e r2 d2 show ?thesis by simp
qed

text \<open>
  C7, as amended. When the given delays and the defaults at entry are non-negative numbers,
  \<^verbatim>\<open>slowdown(read, write)\<close> first calls \<^verbatim>\<open>set_delay(read, write)\<close>, so that the block starts with
  the defaults and every session of the set at \<open>read\<close> and \<open>write\<close>; when the block has ended,
  by returning or by raising, \<^verbatim>\<open>set_delay\<close> is called with the defaults of entry: the
  defaults are those of entry again, every session that is in the set when the block ends
  has them as its timeouts, and an exception of the block is raised again after that.
\<close>

theorem C7_slowdown_restores:
  "non_negative r \<and> non_negative w \<and>
   non_negative (p_read_delay p) \<and> non_negative (p_write_delay p) \<longrightarrow>
     (\<exists>p1 p3.
        set_delay p r w = Returned p1 \<and>
        p_read_delay p1 = r \<and> p_write_delay p1 = w \<and> client_ids p1 = client_ids p \<and>
        (\<forall>(k, c) \<in> set (clients p1). Num (timeout (read_delay c)) = r \<and>
                                       Num (timeout (write_delay c)) = w) \<and>
        set_delay (state_of (block p1)) (p_read_delay p) (p_write_delay p) = Returned p3 \<and>
        slowdown p r w block =
          (case raised (block p1) of None \<Rightarrow> Returned p3 | Some e \<Rightarrow> Raised e p3) \<and>
        p_read_delay p3 = p_read_delay p \<and> p_write_delay p3 = p_write_delay p \<and>
        client_ids p3 = client_ids (state_of (block p1)) \<and>
        (\<forall>(k, c) \<in> set (clients p3). Num (timeout (read_delay c)) = p_read_delay p \<and>
                                       Num (timeout (write_delay c)) = p_write_delay p))"
proof
  assume h: "non_negative r \<and> non_negative w \<and>
   non_negative (p_read_delay p) \<and> non_negative (p_write_delay p)"
  from h set_delay_valid [of r w p]
  obtain p1 where p1: "set_delay p r w = Returned p1" "client_ids p1 = client_ids p"
    "\<forall>(k, c) \<in> set (clients p1). Num (timeout (read_delay c)) = r \<and>
                                   Num (timeout (write_delay c)) = w"
    "p_read_delay p1 = r" "p_write_delay p1 = w"
    by blast
  let ?p2 = "state_of (block p1)"
  from h set_delay_valid [of "p_read_delay p" "p_write_delay p" ?p2]
  obtain p3 where p3: "set_delay ?p2 (p_read_delay p) (p_write_delay p) = Returned p3"
    "client_ids p3 = client_ids ?p2"
    "\<forall>(k, c) \<in> set (clients p3). Num (timeout (read_delay c)) = p_read_delay p \<and>
                                   Num (timeout (write_delay c)) = p_write_delay p"
    "p_read_delay p3 = p_read_delay p" "p_write_delay p3 = p_write_delay p"
    by blast
  have sl: "slowdown p r w block =
          (case raised (block p1) of None \<Rightarrow> Returned p3 | Some e \<Rightarrow> Raised e p3)"
    using p1(1) p3(1) by (cases "block p1") (simp_all add: slowdown_def)
  from p1 p3 sl show "\<exists>p1 p3.
        set_delay p r w = Returned p1 \<and>
        p_read_delay p1 = r \<and> p_write_delay p1 = w \<and> client_ids p1 = client_ids p \<and>
        (\<forall>(k, c) \<in> set (clients p1). Num (timeout (read_delay c)) = r \<and>
                                       Num (timeout (write_delay c)) = w) \<and>
        set_delay (state_of (block p1)) (p_read_delay p) (p_write_delay p) = Returned p3 \<and>
        slowdown p r w block =
          (case raised (block p1) of None \<Rightarrow> Returned p3 | Some e \<Rightarrow> Raised e p3) \<and>
        p_read_delay p3 = p_read_delay p \<and> p_write_delay p3 = p_write_delay p \<and>
        client_ids p3 = client_ids (state_of (block p1)) \<and>
        (\<forall>(k, c) \<in> set (clients p3). Num (timeout (read_delay c)) = p_read_delay p \<and>
                                       Num (timeout (write_delay c)) = p_write_delay p)"
    by blast
qed


theorem C7_slowdown_restores_witness:
  "non_negative (Num (PyFloat 0.1)) \<and> non_negative (Num (PyInt 0)) \<and>
   non_negative (p_read_delay one_session) \<and> non_negative (p_write_delay one_session) \<and>
   raised (slowdown one_session (Num (PyFloat 0.1)) (Num (PyInt 0)) failing_block) =
     Some (OtherError ''boom'') \<and>
   p_read_delay (state_of (slowdown one_session (Num (PyFloat 0.1)) (Num (PyInt 0)) failing_block))
     = Num (PyInt 0) \<and>
   map (\<lambda>(k, c). (k, timeout (read_delay c), timeout (write_delay c)))
     (clients (state_of (slowdown one_session (Num (PyFloat 0.1)) (Num (PyInt 0)) failing_block)))
     = [(0, PyInt 0, PyInt 0)]"
proof -
  have h: "non_negative (Num (PyFloat 0.1)) \<and> non_negative (Num (PyInt 0)) \<and>
   non_negative (p_read_delay one_session) \<and> non_negative (p_write_delay one_session)"
    by (simp add: one_session_fields non_negative_def)
  from C7_slowdown_restores [of "Num (PyFloat 0.1)" "Num (PyInt 0)" one_session failing_block,
      rule_format, OF h]
  obtain p1 p3 where
    p1: "client_ids p1 = client_ids one_session" and
    sl: "slowdown one_session (Num (PyFloat 0.1)) (Num (PyInt 0)) failing_block =
          (case raised (failing_block p1) of None \<Rightarrow> Returned p3 | Some e \<Rightarrow> Raised e p3)" and
    p3: "p_read_delay p3 = p_read_delay one_session"
      "client_ids p3 = client_ids (state_of (failing_block p1))"
      "\<forall>(k, c) \<in> set (clients p3). Num (timeout (read_delay c)) = p_read_delay one_session \<and>
                                     Num (timeout (write_delay c)) = p_write_delay one_session"
    by (elim exE conjE)
  have sl': "slowdown one_session (Num (PyFloat 0.1)) (Num (PyInt 0)) failing_block =
      Raised (OtherError ''boom'') p3"
    using sl by (simp add: failing_block_def)
  have ids: "client_ids p3 = [0]"
    using p3(2) p1 by (simp add: failing_block_def one_session_fields)
  then obtain c where c: "clients p3 = [(0, c)]"
    using clients_single by blast
  have t: "timeout (read_delay c) = PyInt 0 \<and> timeout (write_delay c) = PyInt 0"
    using p3(3) unfolding c by (simp add: one_session_fields)
  show ?thesis
    unfolding sl' using h p3(1) c t by (simp add: one_session_fields)
qed

section \<open>Properties of runs\<close>

lemma put_client_ids: "client_ids (put_client k c p) = client_ids p"
  by (simp add: put_client_def client_ids_def comp_def case_prod_unfold)

lemma put_client_registered:
  "set (registered (put_client k c p)) \<subseteq> set (registered p) \<union> set (closing_callbacks c)"
  by (auto simp: put_client_def registered_def split: if_splits)

lemma put_client_next_id: "next_id (put_client k c p) = next_id p"
  by (simp add: put_client_def)

lemma run_callback_ids:
  "set (client_ids (run_callback cb p)) = set (client_ids p) - {i. cb = RemoveClient i}"
  by (cases cb) (auto simp: client_ids_def)

lemma run_callback_registered: "set (registered (run_callback cb p)) \<subseteq> set (registered p)"
  by (cases cb) (auto simp: registered_def)

lemma run_callback_next_id: "next_id (run_callback cb p) = next_id p"
  by (cases cb) simp

lemma run_callbacks_ids:
  "set (client_ids (run_callbacks cbs p)) = set (client_ids p) - {i. RemoveClient i \<in> set cbs}"
  unfolding run_callbacks_def
proof (induction cbs arbitrary: p)
  case Nil
  then show ?case by simp
next
  case (Cons cb cbs)
  show ?case
    using Cons [of "run_callback cb p"] run_callback_ids [of cb p] by auto
qed

lemma run_callbacks_registered: "set (registered (run_callbacks cbs p)) \<subseteq> set (registered p)"
  unfolding run_callbacks_def
proof (induction cbs arbitrary: p)
  case Nil
  then show ?case by simp
next
  case (Cons cb cbs)
  show ?case
    using Cons [of "run_callback cb p"] run_callback_registered [of cb p] by auto
qed

lemma run_callbacks_next_id: "next_id (run_callbacks cbs p) = next_id p"
  unfolding run_callbacks_def
  by (induction cbs arbitrary: p) (simp_all add: run_callback_next_id)

lemma apply_delays_callbacks:
  "map (\<lambda>(k, c). closing_callbacks c) (state_of (apply_delays r w cs)) =
   map (\<lambda>(k, c). closing_callbacks c) cs"
  by (induction cs) (auto split: result.splits)

lemma set_delay_registered: "registered (state_of (set_delay p r w)) = registered p"
  using apply_delays_callbacks [of r w "clients p"]
  by (auto simp: set_delay_def registered_def split: result.splits)

lemma set_delay_next_id: "next_id (state_of (set_delay p r w)) = next_id p"
  by (auto simp: set_delay_def split: result.splits)

lemma set_processor_callbacks:
  "closing_callbacks (set_read_processor c v) = closing_callbacks c"
  "closing_callbacks (set_write_processor c v) = closing_callbacks c"
  by (simp_all add: set_read_processor_def set_write_processor_def split: option.splits)

lemma set_content_processors_view:
  "client_ids (set_content_processors p r w) = client_ids p"
  "registered (set_content_processors p r w) = registered p"
  "next_id (set_content_processors p r w) = next_id p"
  by (simp_all add: set_content_processors_def client_ids_def registered_def comp_def
        case_prod_unfold set_processor_callbacks)

lemma map_of_callbacks:
  "map_of (clients p) k = Some c \<Longrightarrow> set (closing_callbacks c) \<subseteq> set (registered p)"
  by (auto simp: registered_def dest!: map_of_SomeD)

lemma map_of_ids: "map_of (clients p) k = Some c \<Longrightarrow> k \<in> set (client_ids p)"
  by (auto simp: client_ids_def dest!: map_of_SomeD intro: rev_image_eqI)

lemma ids_map_of: "k \<in> set (client_ids p) \<Longrightarrow> \<exists>c. map_of (clients p) k = Some c"
  by (cases "map_of (clients p) k") (auto simp: client_ids_def map_of_eq_None_iff)

lemma put_client_registered_same:
  assumes "map_of (clients p) k = Some c0" "set (closing_callbacks c) \<subseteq> set (closing_callbacks c0)"
  shows "set (registered (put_client k c p)) \<subseteq> set (registered p)"
  using put_client_registered [of k c p] map_of_callbacks [OF assms(1)] assms(2) by blast

lemma set_client_read_processor_view:
  "client_ids (set_client_read_processor k v p) = client_ids p"
  "set (registered (set_client_read_processor k v p)) \<subseteq> set (registered p)"
  "next_id (set_client_read_processor k v p) = next_id p"
proof -
  show "client_ids (set_client_read_processor k v p) = client_ids p"
    by (simp add: set_client_read_processor_def put_client_ids split: option.splits)
  show "next_id (set_client_read_processor k v p) = next_id p"
    by (simp add: set_client_read_processor_def put_client_next_id split: option.splits)
  show "set (registered (set_client_read_processor k v p)) \<subseteq> set (registered p)"
  proof (cases "map_of (clients p) k")
    case None
    then show ?thesis by (simp add: set_client_read_processor_def)
  next
    case (Some c0)
    then show ?thesis
      using put_client_registered_same [OF Some, of "set_read_processor c0 v"]
      by (simp add: set_client_read_processor_def set_processor_callbacks)
  qed
qed

lemma set_client_write_processor_view:
  "client_ids (set_client_write_processor k v p) = client_ids p"
  "set (registered (set_client_write_processor k v p)) \<subseteq> set (registered p)"
  "next_id (set_client_write_processor k v p) = next_id p"
proof -
  show "client_ids (set_client_write_processor k v p) = client_ids p"
    by (simp add: set_client_write_processor_def put_client_ids split: option.splits)
  show "next_id (set_client_write_processor k v p) = next_id p"
    by (simp add: set_client_write_processor_def put_client_next_id split: option.splits)
  show "set (registered (set_client_write_processor k v p)) \<subseteq> set (registered p)"
  proof (cases "map_of (clients p) k")
    case None
    then show ?thesis by (simp add: set_client_write_processor_def)
  next
    case (Some c0)
    then show ?thesis
      using put_client_registered_same [OF Some, of "set_write_processor c0 v"]
      by (simp add: set_client_write_processor_def set_processor_callbacks)
  qed
qed

lemma handle_client_begin_shape:
  "\<exists>c. closing_callbacks c = [] \<and>
       state_of (handle_client_begin p) =
         put_client (next_id p) c
           (p\<lparr>clients := clients p @ [(next_id p, TCPProxyClient_init (p_buffered p))],
              next_id := Suc (next_id p)\<rparr>)"
proof -
  let ?client = "TCPProxyClient_init (p_buffered p)"
  let ?p0 = "p\<lparr>clients := clients p @ [(next_id p, ?client)], next_id := Suc (next_id p)\<rparr>"
  have cb: "closing_callbacks ?client = []"
    by (simp add: TCPProxyClient_init_def)
  show ?thesis
  proof (cases "set_timeout (read_delay ?client) (p_read_delay p)")
    case (Raised e d)
    then have "state_of (handle_client_begin p) =
        put_client (next_id p) (?client\<lparr>read_delay := d\<rparr>) ?p0"
      by (simp add: handle_client_begin_def Let_def)
    moreover have "closing_callbacks (?client\<lparr>read_delay := d\<rparr>) = []"
      using cb by simp
    ultimately show ?thesis by blast
  next
    case (Returned d)
    show ?thesis
    proof (cases "set_timeout (write_delay ?client) (p_write_delay p)")
      case (Raised e d')
      with Returned have "state_of (handle_client_begin p) =
          put_client (next_id p) (?client\<lparr>read_delay := d, write_delay := d'\<rparr>) ?p0"
        by (simp add: handle_client_begin_def Let_def)
      moreover have "closing_callbacks (?client\<lparr>read_delay := d, write_delay := d'\<rparr>) = []"
        using cb by simp
      ultimately show ?thesis by blast
    next
      case r2: (Returned d')
      let ?c = "set_write_processor
                  (set_read_processor (?client\<lparr>read_delay := d, write_delay := d'\<rparr>)
                     (p_read_processor p))
                  (p_write_processor p)"
      from Returned r2 have "state_of (handle_client_begin p) = put_client (next_id p) ?c ?p0"
        by (simp add: handle_client_begin_def Let_def)
      moreover have "closing_callbacks ?c = []"
        using cb by (simp add: set_processor_callbacks)
      ultimately show ?thesis by blast
    qed
  qed
qed

lemma handle_client_begin_view:
  "client_ids (state_of (handle_client_begin p)) = client_ids p @ [next_id p]"
  "set (registered (state_of (handle_client_begin p))) \<subseteq> set (registered p)"
  "next_id (state_of (handle_client_begin p)) = Suc (next_id p)"
proof -
  let ?p0 = "p\<lparr>clients := clients p @ [(next_id p, TCPProxyClient_init (p_buffered p))],
              next_id := Suc (next_id p)\<rparr>"
  obtain c where c: "closing_callbacks c = []"
    "state_of (handle_client_begin p) = put_client (next_id p) c ?p0"
    using handle_client_begin_shape by blast
  have r0: "registered ?p0 = registered p"
    by (simp add: registered_def TCPProxyClient_init_def)
  have i0: "client_ids ?p0 = client_ids p @ [next_id p]"
    by (simp add: client_ids_def)
  show "client_ids (state_of (handle_client_begin p)) = client_ids p @ [next_id p]"
    unfolding c(2) put_client_ids by (rule i0)
  show "next_id (state_of (handle_client_begin p)) = Suc (next_id p)"
    unfolding c(2) by (simp add: put_client_next_id)
  show "set (registered (state_of (handle_client_begin p))) \<subseteq> set (registered p)"
    unfolding c(2) using put_client_registered [of "next_id p" c ?p0] c(1) r0 by simp
qed

lemma connect_callbacks: "closing_callbacks (state_of (connect c outcome)) = closing_callbacks c"
  by (cases outcome) (simp_all add: connect_def)

lemma connect_raises: "outcome \<noteq> ConnectOk \<Longrightarrow> raised (connect c outcome) \<noteq> None"
  by (cases outcome) (simp_all add: connect_def)

lemma handle_client_end_next_id: "next_id (state_of (handle_client_end k outcome p)) = next_id p"
  by (auto simp: handle_client_end_def put_client_next_id run_callback_next_id
           simp del: run_callback.simps split: option.splits result.splits)

lemma handle_client_end_ids:
  "set (client_ids (state_of (handle_client_end k outcome p))) \<subseteq> set (client_ids p)"
  "j \<noteq> k \<Longrightarrow> j \<in> set (client_ids p) \<Longrightarrow>
     j \<in> set (client_ids (state_of (handle_client_end k outcome p)))"
  by (auto simp: handle_client_end_def put_client_ids run_callback_ids
           simp del: run_callback.simps split: option.splits result.splits)

lemma handle_client_end_registered:
  "set (registered (state_of (handle_client_end k outcome p))) \<subseteq>
     set (registered p) \<union> {RemoveClient k}"
proof (cases "map_of (clients p) k")
  case None
  then show ?thesis by (auto simp: handle_client_end_def)
next
  case (Some c)
  note cb = map_of_callbacks [OF Some]
  show ?thesis
  proof (cases "connect c outcome")
    case (Raised e c')
    then have "closing_callbacks c' = closing_callbacks c"
      using connect_callbacks [of c outcome] by simp
    then show ?thesis
      using Some Raised put_client_registered [of k c' p] cb
      by (auto simp: handle_client_end_def)
  next
    case (Returned c')
    then have eq: "closing_callbacks c' = closing_callbacks c"
      using connect_callbacks [of c outcome] by simp
    show ?thesis
    proof (cases "state_done (closing c')")
      case True
      then show ?thesis
        using Some Returned eq cb put_client_registered [of k c' p]
          run_callback_registered [of "RemoveClient k" "put_client k c' p"]
        by (auto simp: handle_client_end_def simp del: run_callback.simps)
    next
      case False
      then show ?thesis
        using Some Returned eq cb
          put_client_registered
            [of k "c'\<lparr>closing_callbacks := closing_callbacks c' @ [RemoveClient k]\<rparr>" p]
        by (auto simp: handle_client_end_def)
    qed
  qed
qed

lemma handle_client_end_failed:
  assumes "outcome \<noteq> ConnectOk"
  shows "client_ids (state_of (handle_client_end k outcome p)) = client_ids p"
    and "set (registered (state_of (handle_client_end k outcome p))) \<subseteq> set (registered p)"
    and "k \<in> set (client_ids p) \<Longrightarrow> raised (handle_client_end k outcome p) \<noteq> None"
proof -
  show "client_ids (state_of (handle_client_end k outcome p)) = client_ids p"
  proof (cases "map_of (clients p) k")
    case None
    then show ?thesis by (simp add: handle_client_end_def)
  next
    case (Some c)
    obtain e c' where r: "connect c outcome = Raised e c'"
      using connect_raises [OF assms, of c] by (cases "connect c outcome") auto
    show ?thesis
      using Some r by (simp add: handle_client_end_def put_client_ids)
  qed
  show "set (registered (state_of (handle_client_end k outcome p))) \<subseteq> set (registered p)"
  proof (cases "map_of (clients p) k")
    case None
    then show ?thesis by (simp add: handle_client_end_def)
  next
    case (Some c)
    obtain e c' where r: "connect c outcome = Raised e c'"
      using connect_raises [OF assms, of c] by (cases "connect c outcome") auto
    then have "closing_callbacks c' = closing_callbacks c"
      using connect_callbacks [of c outcome] by simp
    then show ?thesis
      using Some r put_client_registered_same [OF Some, of c']
      by (simp add: handle_client_end_def)
  qed
  show "k \<in> set (client_ids p) \<Longrightarrow> raised (handle_client_end k outcome p) \<noteq> None"
  proof -
    assume "k \<in> set (client_ids p)"
    then obtain c where c: "map_of (clients p) k = Some c"
      using ids_map_of by blast
    obtain e c' where r: "connect c outcome = Raised e c'"
      using connect_raises [OF assms, of c] by (cases "connect c outcome") auto
    show ?thesis using c r by (simp add: handle_client_end_def)
  qed
qed

lemma callbacks_of_close:
  "set (callbacks_of (fst (close ended c))) \<subseteq> set (closing_callbacks c)"
  by (auto simp: close_def cancel_tasks_def callbacks_of_def)

lemma close_callbacks: "set (closing_callbacks (snd (close ended c))) \<subseteq> set (closing_callbacks c)"
  by (auto simp: close_def cancel_tasks_def)

lemma close_client_view:
  "next_id (close_client ended k p) = next_id p"
  "set (registered (close_client ended k p)) \<subseteq> set (registered p)"
  "set (client_ids (close_client ended k p)) \<subseteq> set (client_ids p)"
  "j \<in> set (client_ids p) \<Longrightarrow> RemoveClient j \<notin> set (registered p) \<Longrightarrow>
     j \<in> set (client_ids (close_client ended k p))"
proof -
  show "next_id (close_client ended k p) = next_id p"
    by (simp add: close_client_def run_callbacks_next_id put_client_next_id
          split: option.splits prod.splits)
  show "set (registered (close_client ended k p)) \<subseteq> set (registered p)"
  proof (cases "map_of (clients p) k")
    case None
    then show ?thesis by (simp add: close_client_def)
  next
    case (Some c)
    obtain acts c' where cl: "close ended c = (acts, c')" by (cases "close ended c")
    have "set (closing_callbacks c') \<subseteq> set (closing_callbacks c)"
      using close_callbacks [of ended c] cl by simp
    then have "set (registered (put_client k c' p)) \<subseteq> set (registered p)"
      by (rule put_client_registered_same [OF Some])
    then show ?thesis
      using Some cl run_callbacks_registered [of "callbacks_of acts" "put_client k c' p"]
      by (auto simp: close_client_def)
  qed
  show "set (client_ids (close_client ended k p)) \<subseteq> set (client_ids p)"
    by (auto simp: close_client_def run_callbacks_ids put_client_ids
          split: option.splits prod.splits)
  show "j \<in> set (client_ids p) \<Longrightarrow> RemoveClient j \<notin> set (registered p) \<Longrightarrow>
     j \<in> set (client_ids (close_client ended k p))"
  proof (cases "map_of (clients p) k")
    case None
    assume "j \<in> set (client_ids p)"
    with None show ?thesis by (simp add: close_client_def)
  next
    case (Some c)
    assume j: "j \<in> set (client_ids p)" "RemoveClient j \<notin> set (registered p)"
    obtain acts c' where cl: "close ended c = (acts, c')" by (cases "close ended c")
    have "set (callbacks_of acts) \<subseteq> set (registered p)"
      using callbacks_of_close [of ended c] cl map_of_callbacks [OF Some] by auto
    with j(2) have "RemoveClient j \<notin> set (callbacks_of acts)" by blast
    with j(1) show ?thesis
      using Some cl by (simp add: close_client_def run_callbacks_ids put_client_ids)
  qed
qed


lemma reachable_inv_init: "reachable_inv (system_init b)"
  by (simp add: reachable_inv_def system_init_def TCPProxy_init_def client_ids_def registered_def)

lemma reachable_inv_step:
  assumes "reachable_inv s"
  shows "reachable_inv (run_op x s)"
proof (cases x)
  case (SetDelay r w)
  with assms show ?thesis
    by (simp add: reachable_inv_def set_delay_ids set_delay_registered set_delay_next_id)
next
  case (SetContentProcessors r w)
  with assms show ?thesis
    by (simp add: reachable_inv_def set_content_processors_view)
next
  case (SetReadProcessor k v)
  with assms set_client_read_processor_view(2) [of k v "proxy s"] show ?thesis
    by (simp add: reachable_inv_def set_client_read_processor_view(1,3)) blast
next
  case (SetWriteProcessor k v)
  with assms set_client_write_processor_view(2) [of k v "proxy s"] show ?thesis
    by (simp add: reachable_inv_def set_client_write_processor_view(1,3)) blast
next
  case Accept
  let ?p' = "state_of (handle_client_begin (proxy s))"
  note v = handle_client_begin_view [of "proxy s"]
  have conn: "set (connecting (run_op Accept s)) \<subseteq> set (connecting s) \<union> {next_id (proxy s)}"
    by (auto split: result.splits)
  have prox: "proxy (run_op Accept s) = ?p'"
    by (auto split: result.splits)
  have fresh: "RemoveClient (next_id (proxy s)) \<notin> set (registered (proxy s))"
    using assms by (auto simp: reachable_inv_def)
  show ?thesis
    unfolding Accept reachable_inv_def prox v(1,3)
    using assms conn v(2) fresh
    by (auto simp: reachable_inv_def less_Suc_eq)
next
  case (Connected k outcome)
  show ?thesis
  proof (cases "k \<in> set (connecting s)")
    case False
    with assms Connected show ?thesis by simp
  next
    case True
    let ?p' = "state_of (handle_client_end k outcome (proxy s))"
    have st: "run_op x s = \<lparr>proxy = ?p', connecting = removeAll k (connecting s)\<rparr>"
      using True Connected by simp
    note i = handle_client_end_ids [where k = k and outcome = outcome and p = "proxy s"]
    note r = handle_client_end_registered [of k outcome "proxy s"]
    note n = handle_client_end_next_id [of k outcome "proxy s"]
    have k: "k < next_id (proxy s)"
      using assms True by (auto simp: reachable_inv_def)
    show ?thesis
      unfolding st reachable_inv_def
      using assms i r n k
      by (auto simp: reachable_inv_def)
  qed
next
  case (Close k ended)
  note v = close_client_view [where ended = ended and k = k and p = "proxy s"]
  show ?thesis
    unfolding Close reachable_inv_def
    using assms v(1,2,3) v(4)
    by (auto simp: reachable_inv_def)
qed

lemma reachable_inv_run: "reachable_inv s \<Longrightarrow> reachable_inv (run_ops ops s)"
  unfolding run_ops_def
  by (induction ops arbitrary: s) (simp_all add: reachable_inv_step)

lemma stuck_step:
  assumes "stuck k s"
  shows "stuck k (run_op x s)"
proof (cases x)
  case (SetDelay r w)
  with assms show ?thesis
    by (simp add: stuck_def set_delay_ids set_delay_registered set_delay_next_id)
next
  case (SetContentProcessors r w)
  with assms show ?thesis
    by (simp add: stuck_def set_content_processors_view)
next
  case (SetReadProcessor j v)
  with assms set_client_read_processor_view(2) [of j v "proxy s"] show ?thesis
    by (simp add: stuck_def set_client_read_processor_view(1,3)) blast
next
  case (SetWriteProcessor j v)
  with assms set_client_write_processor_view(2) [of j v "proxy s"] show ?thesis
    by (simp add: stuck_def set_client_write_processor_view(1,3)) blast
next
  case Accept
  let ?p' = "state_of (handle_client_begin (proxy s))"
  note v = handle_client_begin_view [of "proxy s"]
  have conn: "set (connecting (run_op Accept s)) \<subseteq> set (connecting s) \<union> {next_id (proxy s)}"
    by (auto split: result.splits)
  have prox: "proxy (run_op Accept s) = ?p'"
    by (auto split: result.splits)
  show ?thesis
    unfolding Accept stuck_def prox v(1,3)
    using assms conn v(2)
    by (auto simp: stuck_def)
next
  case (Connected j outcome)
  show ?thesis
  proof (cases "j \<in> set (connecting s)")
    case False
    with assms Connected show ?thesis by simp
  next
    case True
    let ?p' = "state_of (handle_client_end j outcome (proxy s))"
    have st: "run_op x s = \<lparr>proxy = ?p', connecting = removeAll j (connecting s)\<rparr>"
      using True Connected by simp
    have ne: "k \<noteq> j"
      using assms True by (auto simp: stuck_def)
    note i = handle_client_end_ids(2) [where j = k and k = j and p = "proxy s" and outcome = outcome]
    note r = handle_client_end_registered [of j outcome "proxy s"]
    note n = handle_client_end_next_id [of j outcome "proxy s"]
    show ?thesis
      unfolding st stuck_def
      using assms ne i r n
      by (auto simp: stuck_def)
  qed
next
  case (Close j ended)
  note v = close_client_view [where ended = ended and k = j and p = "proxy s"]
  show ?thesis
    unfolding Close stuck_def
    using assms v(1,2) v(4) [where j = k]
    by (auto simp: stuck_def)
qed

lemma stuck_run: "stuck k s \<Longrightarrow> stuck k (run_ops ops s)"
  unfolding run_ops_def
  by (induction ops arbitrary: s) (simp_all add: stuck_step)

lemma failed_connect_stuck:
  assumes "reachable_inv s" "k \<in> set (connecting s)" "outcome \<noteq> ConnectOk"
  shows "stuck k (run_op (Connected k outcome) s)"
proof -
  note f = handle_client_end_failed [OF assms(3), of k "proxy s"]
  note n = handle_client_end_next_id [of k outcome "proxy s"]
  show ?thesis
    using assms(1,2) f(1,2) n
    by (auto simp: stuck_def reachable_inv_def)
qed

text \<open>
  C10. Take any run of the proxy from its initial state in which the accept handler of
  the session \<open>k\<close> is suspended in \<^verbatim>\<open>connect\<close>, and let \<^verbatim>\<open>connect\<close> raise. Then the handler ends
  with the exception, and after every further sequence of operations, a \<^verbatim>\<open>close()\<close> of that
  session included, the session is still in the set of clients and no done callback that
  would remove it is registered.
\<close>

theorem C10_failed_connect_stays:
  "k \<in> set (connecting (run_ops ops0 (system_init b))) \<and> outcome \<noteq> ConnectOk \<longrightarrow>
     raised (handle_client_end k outcome (proxy (run_ops ops0 (system_init b)))) \<noteq> None \<and>
     (\<forall>ops.
        k \<in> set (client_ids (proxy
               (run_ops ops (run_op (Connected k outcome) (run_ops ops0 (system_init b)))))) \<and>
        RemoveClient k \<notin> set (registered (proxy
               (run_ops ops (run_op (Connected k outcome) (run_ops ops0 (system_init b)))))))"
proof
  let ?s = "run_ops ops0 (system_init b)"
  assume h: "k \<in> set (connecting ?s) \<and> outcome \<noteq> ConnectOk"
  have inv: "reachable_inv ?s"
    using reachable_inv_init by (rule reachable_inv_run)
  then have kin: "k \<in> set (client_ids (proxy ?s))"
    using h by (simp add: reachable_inv_def)
  have r: "raised (handle_client_end k outcome (proxy ?s)) \<noteq> None"
    using handle_client_end_failed(3) h kin by blast
  have "stuck k (run_op (Connected k outcome) ?s)"
    using inv h by (intro failed_connect_stuck) simp_all
  then have "\<forall>ops. stuck k (run_ops ops (run_op (Connected k outcome) ?s))"
    by (simp add: stuck_run)
  then show "raised (handle_client_end k outcome (proxy ?s)) \<noteq> None \<and>
     (\<forall>ops.
        k \<in> set (client_ids (proxy (run_ops ops (run_op (Connected k outcome) ?s)))) \<and>
        RemoveClient k \<notin> set (registered (proxy (run_ops ops (run_op (Connected k outcome) ?s)))))"
    using r by (simp add: stuck_def)
qed


lemma accepted_system:
  "run_ops [Accept] (system_init True) =
     \<lparr>proxy = (TCPProxy_init True)\<lparr>clients := [(0, TCPProxyClient_init True)], next_id := 1\<rparr>,
      connecting = [0]\<rparr>"
  by (simp add: run_ops_def system_init_def handle_client_begin_def TCPProxy_init_def
        TCPProxyClient_init_def Delay_init_def set_timeout_def put_client_def
        set_read_processor_def set_write_processor_def Let_def)

lemma failed_session_eq:
  "failed_session =
     \<lparr>proxy = (TCPProxy_init True)\<lparr>clients := [(0, TCPProxyClient_init True)], next_id := 1\<rparr>,
      connecting = []\<rparr>"
  by (simp add: failed_session_def accepted_system handle_client_end_def connect_def
        put_client_def)

lemma failed_session_closed:
  "clients (proxy (run_ops [Close 0 (\<lambda>i. None)] failed_session)) =
     [(0, (TCPProxyClient_init True)\<lparr>closing := Finished True\<rparr>)]"
  by (simp add: run_ops_def failed_session_eq close_client_def close_def cancel_tasks_def
        not_done_def callbacks_of_def run_callbacks_def put_client_def TCPProxyClient_init_def)

theorem C10_failed_connect_stays_witness:
  "0 \<in> set (connecting (run_ops [Accept] (system_init True))) \<and>
   ConnectRaises ConnectionError \<noteq> ConnectOk \<and>
   raised (handle_client_end 0 (ConnectRaises ConnectionError)
             (proxy (run_ops [Accept] (system_init True)))) \<noteq> None \<and>
   0 \<in> set (client_ids (proxy (run_ops [Close 0 (\<lambda>i. None)] failed_session))) \<and>
   map (\<lambda>(k, c). (k, closing c, closing_callbacks c))
     (clients (proxy (run_ops [Close 0 (\<lambda>i. None)] failed_session))) = [(0, Finished True, [])]"
proof -
  have h: "0 \<in> set (connecting (run_ops [Accept] (system_init True))) \<and>
      ConnectRaises ConnectionError \<noteq> ConnectOk"
    by (simp add: accepted_system)
  note c10 = C10_failed_connect_stays [of 0 "[Accept]" True "ConnectRaises ConnectionError",
      rule_format, OF h]
  from c10 have a: "raised (handle_client_end 0 (ConnectRaises ConnectionError)
             (proxy (run_ops [Accept] (system_init True)))) \<noteq> None"
    by blast
  from c10 have b: "0 \<in> set (client_ids (proxy (run_ops [Close 0 (\<lambda>i. None)] failed_session)))"
    unfolding failed_session_def by blast
  have e: "map (\<lambda>(k, c). (k, closing c, closing_callbacks c))
     (clients (proxy (run_ops [Close 0 (\<lambda>i. None)] failed_session))) = [(0, Finished True, [])]"
    by (simp add: failed_session_closed TCPProxyClient_init_def)
  from h a b e show ?thesis by blast
qed

text \<open>In a run from the initial state in which every \<^verbatim>\<open>set_delay\<close> call is given non-negative
  numbers, the default delays are non-negative numbers and the identity of the next
  session is not in use.\<close>

lemma defaults_put_client: "defaults_of (put_client k c p) = defaults_of p"
  by (simp add: defaults_of_def put_client_def)

lemma defaults_run_callbacks: "defaults_of (run_callbacks cbs p) = defaults_of p"
  unfolding run_callbacks_def
proof (induction cbs arbitrary: p)
  case Nil
  then show ?case by simp
next
  case (Cons cb cbs)
  have "defaults_of (run_callback cb p) = defaults_of p"
    by (cases cb) (simp add: defaults_of_def)
  with Cons [of "run_callback cb p"] show ?case by simp
qed

lemma defaults_handle_client_begin:
  "defaults_of (state_of (handle_client_begin p)) = defaults_of p"
proof -
  obtain c where "state_of (handle_client_begin p) =
         put_client (next_id p) c
           (p\<lparr>clients := clients p @ [(next_id p, TCPProxyClient_init (p_buffered p))],
              next_id := Suc (next_id p)\<rparr>)"
    using handle_client_begin_shape by blast
  then show ?thesis
    by (simp add: defaults_put_client) (simp add: defaults_of_def)
qed

lemma defaults_handle_client_end:
  "defaults_of (state_of (handle_client_end k outcome p)) = defaults_of p"
  using defaults_run_callbacks [of "[RemoveClient k]"]
  by (auto simp: handle_client_end_def defaults_put_client run_callbacks_def
        simp del: run_callback.simps split: option.splits result.splits)

lemma defaults_close_client: "defaults_of (close_client ended k p) = defaults_of p"
  by (simp add: close_client_def defaults_run_callbacks defaults_put_client
        split: option.splits prod.splits)

lemma defaults_set_content_processors:
  "defaults_of (set_content_processors p r w) = defaults_of p"
  by (simp add: defaults_of_def set_content_processors_def)

lemma defaults_set_client_processor:
  "defaults_of (set_client_read_processor k v p) = defaults_of p"
  "defaults_of (set_client_write_processor k v p) = defaults_of p"
  by (simp_all add: set_client_read_processor_def set_client_write_processor_def
        defaults_put_client split: option.splits)

lemma defaults_set_delay:
  "non_negative r \<Longrightarrow> non_negative w \<Longrightarrow> defaults_of (state_of (set_delay p r w)) = (r, w)"
  using set_delay_valid [of r w p] by (auto simp: defaults_of_def)

lemma valid_step:
  assumes "valid_op x" "non_negative (fst (defaults_of (proxy s)))"
    "non_negative (snd (defaults_of (proxy s)))"
  shows "non_negative (fst (defaults_of (proxy (run_op x s)))) \<and>
         non_negative (snd (defaults_of (proxy (run_op x s))))"
proof (cases x)
  case (SetDelay r w)
  with assms(1) show ?thesis by (simp add: defaults_set_delay)
next
  case Accept
  have "proxy (run_op Accept s) = state_of (handle_client_begin (proxy s))"
    by (auto split: result.splits)
  with assms(2,3) Accept show ?thesis by (simp add: defaults_handle_client_begin)
qed (use assms(2,3) in \<open>simp_all add: defaults_set_content_processors
       defaults_set_client_processor defaults_handle_client_end defaults_close_client\<close>)

lemma valid_run:
  "list_all valid_op ops \<Longrightarrow>
   non_negative (p_read_delay (proxy (run_ops ops (system_init b)))) \<and>
   non_negative (p_write_delay (proxy (run_ops ops (system_init b)))) \<and>
   next_id (proxy (run_ops ops (system_init b)))
     \<notin> set (client_ids (proxy (run_ops ops (system_init b))))"
proof -
  assume v: "list_all valid_op ops"
  have "list_all valid_op ops \<Longrightarrow> non_negative (fst (defaults_of (proxy s))) \<Longrightarrow>
        non_negative (snd (defaults_of (proxy s))) \<Longrightarrow>
        non_negative (fst (defaults_of (proxy (fold run_op ops s)))) \<and>
        non_negative (snd (defaults_of (proxy (fold run_op ops s))))" for s
  proof (induction ops arbitrary: s)
    case Nil
    then show ?case by simp
  next
    case (Cons x ops)
    have "non_negative (fst (defaults_of (proxy (run_op x s)))) \<and>
          non_negative (snd (defaults_of (proxy (run_op x s))))"
      using Cons.prems by (intro valid_step) simp_all
    with Cons show ?case by simp
  qed
  from this [OF v, of "system_init b"]
  have d: "non_negative (p_read_delay (proxy (run_ops ops (system_init b)))) \<and>
   non_negative (p_write_delay (proxy (run_ops ops (system_init b))))"
    by (simp add: run_ops_def defaults_of_def system_init_def TCPProxy_init_def non_negative_def)
  have "reachable_inv (run_ops ops (system_init b))"
    using reachable_inv_init by (rule reachable_inv_run)
  then have "next_id (proxy (run_ops ops (system_init b)))
     \<notin> set (client_ids (proxy (run_ops ops (system_init b))))"
    by (auto simp: reachable_inv_def)
  with d show ?thesis by simp
qed


lemma map_of_replace:
  "map_of (map (\<lambda>(j, c0). if j = k then (j, c) else (j, c0)) cs) k' =
     (if k' = k then (if k \<in> fst ` set cs then Some c else None) else map_of cs k')"
  by (induction cs) (auto simp: rev_image_eqI)

lemma map_of_put_client:
  "map_of (clients (put_client k c p)) k' =
     (if k' = k then (if k \<in> set (client_ids p) then Some c else None)
      else map_of (clients p) k')"
  by (simp add: put_client_def client_ids_def map_of_replace)

lemma map_of_remove:
  "map_of (filter (\<lambda>(j, c). j \<noteq> i) cs) k' = (if k' = i then None else map_of cs k')"
  by (induction cs) auto

text \<open>Which operations leave the processors of a session as they are.\<close>

lemma sp_put_client:
  "session_processors (put_client j c p) k =
     (if k = j then (if j \<in> set (client_ids p) then Some (read_processor c, write_processor c)
                     else None)
      else session_processors p k)"
  by (simp add: session_processors_def map_of_put_client)

lemma sp_put_client_same:
  assumes "map_of (clients p) j = Some c0" "read_processor c = read_processor c0"
    "write_processor c = write_processor c0"
  shows "session_processors (put_client j c p) k = session_processors p k"
  using assms map_of_ids [OF assms(1)] by (simp add: sp_put_client) (simp add: session_processors_def)

lemma sp_run_callback:
  "session_processors (run_callback cb p) k = None \<or>
   session_processors (run_callback cb p) k = session_processors p k"
  by (cases cb) (simp add: session_processors_def map_of_remove)

lemma sp_run_callback_None:
  "session_processors p k = None \<Longrightarrow> session_processors (run_callback cb p) k = None"
  by (cases cb) (simp add: session_processors_def map_of_remove)

lemma sp_run_callbacks:
  "session_processors (run_callbacks cbs p) k = None \<or>
   session_processors (run_callbacks cbs p) k = session_processors p k"
  unfolding run_callbacks_def
proof (induction cbs arbitrary: p)
  case Nil
  then show ?case by simp
next
  case (Cons cb cbs)
  from Cons [of "run_callback cb p"] sp_run_callback [of cb p k]
  show ?case
    by (simp del: run_callback.simps) metis
qed

lemma sp_apply_delays:
  "map_option (\<lambda>c. (read_processor c, write_processor c)) (map_of (state_of (apply_delays r w cs)) k)
   = map_option (\<lambda>c. (read_processor c, write_processor c)) (map_of cs k)"
  by (induction cs) (auto simp: read_processor_def write_processor_def split: result.splits)

lemma sp_set_delay: "session_processors (state_of (set_delay p r w)) k = session_processors p k"
  using sp_apply_delays [of r w "clients p" k]
  by (auto simp: session_processors_def set_delay_def split: result.splits)

lemma connect_processors: "processors (state_of (connect c outcome)) = processors c"
  by (cases outcome) (simp_all add: connect_def)

lemma close_processors: "processors (snd (close ended c)) = processors c"
  by (simp add: close_def cancel_tasks_def)

lemma sp_handle_client_end:
  "session_processors (state_of (handle_client_end j outcome p)) k = None \<or>
   session_processors (state_of (handle_client_end j outcome p)) k = session_processors p k"
proof (cases "map_of (clients p) j")
  case None
  then show ?thesis by (simp add: handle_client_end_def)
next
  case (Some c)
  let ?c' = "state_of (connect c outcome)"
  have pr: "read_processor ?c' = read_processor c" "write_processor ?c' = write_processor c"
    by (simp_all add: read_processor_def write_processor_def connect_processors)
  have a: "session_processors (put_client j ?c' p) k = session_processors p k"
    using Some pr by (rule sp_put_client_same)
  have b: "session_processors
        (put_client j (?c'\<lparr>closing_callbacks := closing_callbacks ?c' @ [RemoveClient j]\<rparr>) p) k
      = session_processors p k"
    using Some pr by (intro sp_put_client_same) (simp_all add: read_processor_def write_processor_def)
  show ?thesis
  proof (cases "connect c outcome")
    case (Raised e c')
    with Some a show ?thesis by (simp add: handle_client_end_def)
  next
    case (Returned c')
    show ?thesis
    proof (cases "state_done (closing c')")
      case True
      with Some Returned a sp_run_callback [of "RemoveClient j" "put_client j c' p" k]
      show ?thesis by (auto simp: handle_client_end_def simp del: run_callback.simps)
    next
      case False
      with Some Returned b show ?thesis by (simp add: handle_client_end_def)
    qed
  qed
qed

lemma sp_close_client:
  "session_processors (close_client ended j p) k = None \<or>
   session_processors (close_client ended j p) k = session_processors p k"
proof (cases "map_of (clients p) j")
  case None
  then show ?thesis by (simp add: close_client_def)
next
  case (Some c)
  have "session_processors (put_client j (snd (close ended c)) p) k = session_processors p k"
    using Some
    by (intro sp_put_client_same) (simp_all add: read_processor_def write_processor_def close_processors)
  with sp_run_callbacks [of "callbacks_of (fst (close ended c))" "put_client j (snd (close ended c)) p" k]
  show ?thesis
    using Some by (auto simp: close_client_def case_prod_unfold Let_def)
qed

lemma sp_handle_client_begin:
  assumes "k \<noteq> next_id p"
  shows "session_processors (state_of (handle_client_begin p)) k = session_processors p k"
proof -
  obtain c where c: "state_of (handle_client_begin p) =
         put_client (next_id p) c
           (p\<lparr>clients := clients p @ [(next_id p, TCPProxyClient_init (p_buffered p))],
              next_id := Suc (next_id p)\<rparr>)"
    using handle_client_begin_shape by blast
  show ?thesis
    unfolding c using assms
    by (simp add: sp_put_client) (simp add: session_processors_def map_add_def split: option.splits)
qed

lemma sp_set_client_processor:
  "j \<noteq> k \<Longrightarrow> session_processors (set_client_read_processor j v p) k = session_processors p k"
  "j \<noteq> k \<Longrightarrow> session_processors (set_client_write_processor j v p) k = session_processors p k"
  by (simp_all add: set_client_read_processor_def set_client_write_processor_def sp_put_client
        split: option.splits)

lemma next_id_step: "next_id (proxy s) \<le> next_id (proxy (run_op x s))"
proof (cases x)
  case Accept
  have "proxy (run_op Accept s) = state_of (handle_client_begin (proxy s))"
    by (auto split: result.splits)
  with Accept show ?thesis by (simp add: handle_client_begin_view(3))
qed (simp_all add: set_delay_next_id set_content_processors_view set_client_read_processor_view
       set_client_write_processor_view handle_client_end_next_id close_client_view)

lemma keeps_step:
  assumes "keeps_processors k x" "k < next_id (proxy s)"
  shows "session_processors (proxy (run_op x s)) k = None \<or>
         session_processors (proxy (run_op x s)) k = session_processors (proxy s) k"
proof (cases x)
  case (SetDelay r w)
  then show ?thesis by (simp add: sp_set_delay)
next
  case (SetContentProcessors r w)
  with assms(1) show ?thesis by simp
next
  case (SetReadProcessor j v)
  with assms(1) show ?thesis by (simp add: sp_set_client_processor)
next
  case (SetWriteProcessor j v)
  with assms(1) show ?thesis by (simp add: sp_set_client_processor)
next
  case Accept
  have "proxy (run_op Accept s) = state_of (handle_client_begin (proxy s))"
    by (auto split: result.splits)
  with Accept assms(2) show ?thesis by (simp add: sp_handle_client_begin)
next
  case (Connected j outcome)
  with sp_handle_client_end [of j outcome "proxy s" k] show ?thesis by auto
next
  case (Close j ended)
  with sp_close_client [of ended j "proxy s" k] show ?thesis by simp
qed

lemma keeps_run:
  "list_all (keeps_processors k) ops \<Longrightarrow> k < next_id (proxy s) \<Longrightarrow>
   session_processors (proxy (run_ops ops s)) k = None \<or>
   session_processors (proxy (run_ops ops s)) k = session_processors (proxy s) k"
  unfolding run_ops_def
proof (induction ops arbitrary: s)
  case Nil
  then show ?case by simp
next
  case (Cons x ops)
  have k: "keeps_processors k x" and rest: "list_all (keeps_processors k) ops"
    using Cons.prems(1) by simp_all
  have n: "k < next_id (proxy (run_op x s))"
    using Cons.prems(2) next_id_step [of s x] by simp
  from Cons.IH [OF rest n] keeps_step [OF k Cons.prems(2)]
  show ?case by auto
qed

lemma proxy_accept: "proxy (run_op Accept s) = state_of (handle_client_begin (proxy s))"
  by (auto split: result.splits)

lemma srp_sp: "session_read_processor p k = map_option fst (session_processors p k)"
  by (simp add: session_read_processor_def session_processors_def option.map_comp comp_def)

lemma swp_sp: "session_write_processor p k = map_option snd (session_processors p k)"
  by (simp add: session_write_processor_def session_processors_def option.map_comp comp_def)

lemma srp_write_same:
  "session_read_processor (set_client_write_processor j v p) k = session_read_processor p k"
  by (auto simp: session_read_processor_def set_client_write_processor_def map_of_put_client
        map_of_ids read_processor_set_write split: option.splits)

lemma swp_read_same:
  "session_write_processor (set_client_read_processor j v p) k = session_write_processor p k"
  by (auto simp: session_write_processor_def set_client_read_processor_def map_of_put_client
        map_of_ids write_processor_set_read split: option.splits)

lemma keeps_read_step:
  assumes "keeps_read_processor k x" "k < next_id (proxy s)"
  shows "session_read_processor (proxy (run_op x s)) k = None \<or>
         session_read_processor (proxy (run_op x s)) k = session_read_processor (proxy s) k"
proof (cases "keeps_processors k x")
  case True
  from keeps_step [OF True assms(2)] show ?thesis
    by (auto simp: srp_sp)
next
  case False
  with assms(1) obtain v where "x = SetWriteProcessor k v"
    by (cases x) auto
  then show ?thesis by (simp add: srp_write_same)
qed

lemma keeps_write_step:
  assumes "keeps_write_processor k x" "k < next_id (proxy s)"
  shows "session_write_processor (proxy (run_op x s)) k = None \<or>
         session_write_processor (proxy (run_op x s)) k = session_write_processor (proxy s) k"
proof (cases "keeps_processors k x")
  case True
  from keeps_step [OF True assms(2)] show ?thesis
    by (auto simp: swp_sp)
next
  case False
  with assms(1) obtain v where "x = SetReadProcessor k v"
    by (cases x) auto
  then show ?thesis by (simp add: swp_read_same)
qed

lemma keeps_read_run:
  "list_all (keeps_read_processor k) ops \<Longrightarrow> k < next_id (proxy s) \<Longrightarrow>
   session_read_processor (proxy (run_ops ops s)) k = None \<or>
   session_read_processor (proxy (run_ops ops s)) k = session_read_processor (proxy s) k"
  unfolding run_ops_def
proof (induction ops arbitrary: s)
  case Nil
  then show ?case by simp
next
  case (Cons x ops)
  have k: "keeps_read_processor k x" and rest: "list_all (keeps_read_processor k) ops"
    using Cons.prems(1) by simp_all
  have n: "k < next_id (proxy (run_op x s))"
    using Cons.prems(2) next_id_step [of s x] by simp
  from Cons.IH [OF rest n] keeps_read_step [OF k Cons.prems(2)]
  show ?case by auto
qed

lemma keeps_write_run:
  "list_all (keeps_write_processor k) ops \<Longrightarrow> k < next_id (proxy s) \<Longrightarrow>
   session_write_processor (proxy (run_ops ops s)) k = None \<or>
   session_write_processor (proxy (run_ops ops s)) k = session_write_processor (proxy s) k"
  unfolding run_ops_def
proof (induction ops arbitrary: s)
  case Nil
  then show ?case by simp
next
  case (Cons x ops)
  have k: "keeps_write_processor k x" and rest: "list_all (keeps_write_processor k) ops"
    using Cons.prems(1) by simp_all
  have n: "k < next_id (proxy (run_op x s))"
    using Cons.prems(2) next_id_step [of s x] by simp
  from Cons.IH [OF rest n] keeps_write_step [OF k Cons.prems(2)]
  show ?case by auto
qed

lemma srp_None: "session_read_processor p k = None \<longleftrightarrow> k \<notin> set (client_ids p)"
  by (simp add: session_read_processor_def client_ids_def map_of_eq_None_iff)

lemma swp_None: "session_write_processor p k = None \<longleftrightarrow> k \<notin> set (client_ids p)"
  by (simp add: session_write_processor_def client_ids_def map_of_eq_None_iff)

lemma assign_read:
  "k \<in> set (client_ids p) \<Longrightarrow>
   session_read_processor (set_client_read_processor k v p) k = Some (Some (stored_processor v))"
proof -
  assume k: "k \<in> set (client_ids p)"
  then obtain c where "map_of (clients p) k = Some c"
    using ids_map_of by blast
  with k show ?thesis
    by (simp add: session_read_processor_def set_client_read_processor_def map_of_put_client
          read_processor_set_read)
qed

lemma assign_write:
  "k \<in> set (client_ids p) \<Longrightarrow>
   session_write_processor (set_client_write_processor k v p) k = Some (Some (stored_processor v))"
proof -
  assume k: "k \<in> set (client_ids p)"
  then obtain c where "map_of (clients p) k = Some c"
    using ids_map_of by blast
  with k show ?thesis
    by (simp add: session_write_processor_def set_client_write_processor_def map_of_put_client
          write_processor_set_write)
qed

lemma apply_read_processor_srp:
  "apply_read_processor p k chunk =
     (case session_read_processor p k of Some (Some f) \<Rightarrow> f chunk | _ \<Rightarrow> Inl KeyError)"
  by (simp add: apply_read_processor_def session_read_processor_def split: option.splits)

text \<open>
  C2, as amended. A Proxy-level \<^verbatim>\<open>set_content_processors(read, write)\<close> keeps the set of
  sessions and replaces the read and the write processor of every session in it by what
  the setter stores for \<open>read\<close> and \<open>write\<close>, whatever the session held before (the default or
  a processor assigned to that session alone), and stores both values as the defaults.
  An assignment to a processor of one session of the set replaces that processor and
  leaves the other one. In every run from the initial state, the read processor of a
  session, an override included, stays what it is through every sequence of operations that
  holds no Proxy-level \<^verbatim>\<open>set_content_processors\<close> and no assignment to the read processor of
  that session, as long as the session is in the set; likewise the write processor.
\<close>

theorem C2_set_content_processors:
  "client_ids (set_content_processors p r w) = client_ids p \<and>
   (\<forall>(k, c) \<in> set (clients (set_content_processors p r w)).
      read_processor c = Some (stored_processor r) \<and>
      write_processor c = Some (stored_processor w)) \<and>
   p_read_processor (set_content_processors p r w) = r \<and>
   p_write_processor (set_content_processors p r w) = w \<and>
   (k \<in> set (client_ids p) \<longrightarrow>
      session_read_processor (set_client_read_processor k v p) k
        = Some (Some (stored_processor v)) \<and>
      session_write_processor (set_client_read_processor k v p) k
        = session_write_processor p k \<and>
      session_write_processor (set_client_write_processor k v p) k
        = Some (Some (stored_processor v)) \<and>
      session_read_processor (set_client_write_processor k v p) k
        = session_read_processor p k) \<and>
   (list_all (keeps_read_processor k) ops \<and>
    k \<in> set (client_ids (proxy (run_ops ops0 (system_init b)))) \<and>
    k \<in> set (client_ids (proxy (run_ops ops (run_ops ops0 (system_init b))))) \<longrightarrow>
      session_read_processor (proxy (run_ops ops (run_ops ops0 (system_init b)))) k =
      session_read_processor (proxy (run_ops ops0 (system_init b))) k) \<and>
   (list_all (keeps_write_processor k) ops \<and>
    k \<in> set (client_ids (proxy (run_ops ops0 (system_init b)))) \<and>
    k \<in> set (client_ids (proxy (run_ops ops (run_ops ops0 (system_init b))))) \<longrightarrow>
      session_write_processor (proxy (run_ops ops (run_ops ops0 (system_init b)))) k =
      session_write_processor (proxy (run_ops ops0 (system_init b))) k)"
proof -
  let ?s0 = "run_ops ops0 (system_init b)"
  have a: "client_ids (set_content_processors p r w) = client_ids p \<and>
   (\<forall>(k, c) \<in> set (clients (set_content_processors p r w)).
      read_processor c = Some (stored_processor r) \<and>
      write_processor c = Some (stored_processor w)) \<and>
   p_read_processor (set_content_processors p r w) = r \<and>
   p_write_processor (set_content_processors p r w) = w"
    by (auto simp: set_content_processors_def client_ids_def read_processor_set_read
        write_processor_set_write read_processor_set_write comp_def case_prod_unfold)
  have b: "k \<in> set (client_ids p) \<longrightarrow>
      session_read_processor (set_client_read_processor k v p) k
        = Some (Some (stored_processor v)) \<and>
      session_write_processor (set_client_read_processor k v p) k
        = session_write_processor p k \<and>
      session_write_processor (set_client_write_processor k v p) k
        = Some (Some (stored_processor v)) \<and>
      session_read_processor (set_client_write_processor k v p) k
        = session_read_processor p k"
    by (simp add: assign_read assign_write srp_write_same swp_read_same)
  have inv: "reachable_inv ?s0"
    using reachable_inv_init by (rule reachable_inv_run)
  have c: "list_all (keeps_read_processor k) ops \<and> k \<in> set (client_ids (proxy ?s0)) \<and>
    k \<in> set (client_ids (proxy (run_ops ops ?s0))) \<longrightarrow>
      session_read_processor (proxy (run_ops ops ?s0)) k = session_read_processor (proxy ?s0) k"
  proof
    assume h: "list_all (keeps_read_processor k) ops \<and> k \<in> set (client_ids (proxy ?s0)) \<and>
      k \<in> set (client_ids (proxy (run_ops ops ?s0)))"
    with inv have "k < next_id (proxy ?s0)"
      by (simp add: reachable_inv_def)
    with h keeps_read_run [of k ops ?s0]
    show "session_read_processor (proxy (run_ops ops ?s0)) k =
        session_read_processor (proxy ?s0) k"
      by (simp add: srp_None)
  qed
  have d: "list_all (keeps_write_processor k) ops \<and> k \<in> set (client_ids (proxy ?s0)) \<and>
    k \<in> set (client_ids (proxy (run_ops ops ?s0))) \<longrightarrow>
      session_write_processor (proxy (run_ops ops ?s0)) k = session_write_processor (proxy ?s0) k"
  proof
    assume h: "list_all (keeps_write_processor k) ops \<and> k \<in> set (client_ids (proxy ?s0)) \<and>
      k \<in> set (client_ids (proxy (run_ops ops ?s0)))"
    with inv have "k < next_id (proxy ?s0)"
      by (simp add: reachable_inv_def)
    with h keeps_write_run [of k ops ?s0]
    show "session_write_processor (proxy (run_ops ops ?s0)) k =
        session_write_processor (proxy ?s0) k"
      by (simp add: swp_None)
  qed
  from a b c d show ?thesis by (intro conjI) blast+
qed

lemma one_session_eq:
  "one_session =
     (TCPProxy_init True)\<lparr>clients :=
        [(0, (TCPProxyClient_init True)\<lparr>connected := True, tasks := [TaskPending, TaskPending],
            closing_callbacks := [RemoveClient 0]\<rparr>)], next_id := 1\<rparr>"
  by (simp add: one_session_def handle_client_def handle_client_begin_def handle_client_end_def
        TCPProxy_init_def TCPProxyClient_init_def Delay_init_def set_timeout_def put_client_def
        set_read_processor_def set_write_processor_def connect_def Let_def fun_upd_twist)

lemma connected_system:
  "run_ops [Accept, Connected 0 ConnectOk] (system_init True) =
     \<lparr>proxy = one_session, connecting = []\<rparr>"
proof -
  have "run_ops [Accept, Connected 0 ConnectOk] (system_init True) =
      run_op (Connected 0 ConnectOk) (run_ops [Accept] (system_init True))"
    by (simp add: run_ops_def)
  then show ?thesis
    unfolding accepted_system one_session_eq
    by (simp add: handle_client_end_def connect_def put_client_def TCPProxyClient_init_def)
qed

lemma overridden_system_eq: "overridden_system = \<lparr>proxy = overridden, connecting = []\<rparr>"
proof -
  have "overridden_system =
      run_op (SetReadProcessor 0 (Some reverse_processor))
        (run_ops [Accept, Connected 0 ConnectOk] (system_init True))"
    by (simp add: overridden_system_def run_ops_def)
  then show ?thesis
    unfolding connected_system by (simp add: overridden_def)
qed

lemma later_ops_ids:
  "client_ids (proxy (run_ops later_ops s)) = client_ids (proxy s) @ [next_id (proxy s)]"
  by (simp add: later_ops_def run_ops_def proxy_accept set_client_write_processor_view
        handle_client_begin_view set_delay_ids set_delay_next_id del: run_op.simps(5))

text \<open>
  C2 as the specification states it does not hold: on a proxy with one session whose read
  processor was set, on that session alone, to reverse its chunks, a later Proxy-level
  \<^verbatim>\<open>set_content_processors\<close> replaces that processor, and the session answers with the fixed
  string of the proxy.
\<close>

theorem C2_override_counterexample:
  "apply_read_processor overridden 0 ''abc'' = Inr ''cba'' \<and>
   apply_read_processor
     (set_content_processors overridden (Some (const_processor ''Never say hello'')) None)
     0 ''abc'' = Inr ''Never say hello'' \<and>
   apply_read_processor
     (set_content_processors overridden (Some (const_processor ''Never say hello'')) None)
     0 ''abc'' \<noteq> apply_read_processor overridden 0 ''abc''"
  by (simp add: apply_read_processor_def set_content_processors_def overridden_clients
        read_processor_def set_read_processor_def set_write_processor_def awaitable_def
        reverse_processor_def const_processor_def)

lemma reset_ops_ids:
  "client_ids (proxy (run_ops [SetReadProcessor 0 None, Accept] s)) =
     client_ids (proxy s) @ [next_id (proxy s)]"
  by (simp add: run_ops_def proxy_accept set_client_read_processor_view
        handle_client_begin_view del: run_op.simps(5))

theorem C2_set_content_processors_witness:
  "client_ids (set_content_processors overridden (Some (const_processor ''Never say hello'')) None)
     = [0] \<and>
   map (\<lambda>(k, c). (read_processor c, write_processor c))
     (clients (set_content_processors overridden (Some (const_processor ''Never say hello'')) None))
     = [(Some (stored_processor (Some (const_processor ''Never say hello''))),
         Some (stored_processor None))] \<and>
   0 \<in> set (client_ids one_session) \<and>
   session_write_processor one_session 0 = Some (Some blank_processor) \<and>
   session_read_processor overridden 0 = Some (Some (stored_processor (Some reverse_processor))) \<and>
   session_write_processor overridden 0 = Some (Some blank_processor) \<and>
   list_all (keeps_read_processor 0) later_ops \<and>
   0 \<in> set (client_ids (proxy overridden_system)) \<and>
   client_ids (proxy (run_ops later_ops overridden_system)) = [0, 1] \<and>
   apply_read_processor (proxy (run_ops later_ops overridden_system)) 0 ''abc'' = Inr ''cba'' \<and>
   list_all (keeps_write_processor 0) [SetReadProcessor 0 None, Accept] \<and>
   client_ids (proxy (run_ops [SetReadProcessor 0 None, Accept] overridden_system)) = [0, 1] \<and>
   session_write_processor (proxy (run_ops [SetReadProcessor 0 None, Accept] overridden_system)) 0
     = Some (Some blank_processor)"
proof -
  let ?p = "set_content_processors overridden (Some (const_processor ''Never say hello'')) None"
  let ?ops0 = "[Accept, Connected 0 ConnectOk, SetReadProcessor 0 (Some reverse_processor)]"
  note c2 = C2_set_content_processors [where p = overridden and r = "Some (const_processor ''Never say hello'')"
      and w = None]
  have ids: "client_ids ?p = [0]"
    using c2 by (simp add: client_ids_def overridden_clients)
  then obtain c where c: "clients ?p = [(0, c)]"
    using clients_single by blast
  from c2 have "\<forall>(k, c) \<in> set (clients ?p).
      read_processor c = Some (stored_processor (Some (const_processor ''Never say hello''))) \<and>
      write_processor c = Some (stored_processor None)"
    by blast
  then have A: "map (\<lambda>(k, c). (read_processor c, write_processor c)) (clients ?p)
     = [(Some (stored_processor (Some (const_processor ''Never say hello''))),
         Some (stored_processor None))]"
    unfolding c by simp
  have i1: "0 \<in> set (client_ids one_session)"
    by (simp add: one_session_fields)
  have w1: "session_write_processor one_session 0 = Some (Some blank_processor)"
    by (simp add: session_write_processor_def one_session_clients write_processor_def
          TCPProxyClient_init_def)
  note o = C2_set_content_processors [where p = one_session and k = 0 and v = "Some reverse_processor",
      THEN conjunct2, THEN conjunct2, THEN conjunct2, THEN conjunct2, THEN conjunct1,
      rule_format, OF i1, folded overridden_def]
  have s2: "session_read_processor overridden 0
      = Some (Some (stored_processor (Some reverse_processor)))"
    using o by blast
  have s3: "session_write_processor overridden 0 = Some (Some blank_processor)"
    using o w1 by simp
  have kr: "list_all (keeps_read_processor 0) later_ops"
    by (simp add: later_ops_def)
  have kw: "list_all (keeps_write_processor 0) [SetReadProcessor 0 None, Accept]"
    by simp
  have i0: "0 \<in> set (client_ids (proxy overridden_system))"
    by (simp add: overridden_system_eq overridden_def set_client_read_processor_view
          one_session_fields)
  have i2: "client_ids (proxy (run_ops later_ops overridden_system)) = [0, 1]"
    by (simp add: later_ops_ids overridden_system_eq overridden_def
          set_client_read_processor_view one_session_fields)
  have i3: "client_ids (proxy (run_ops [SetReadProcessor 0 None, Accept] overridden_system))
      = [0, 1]"
    by (simp only: reset_ops_ids)
       (simp add: overridden_system_eq overridden_def set_client_read_processor_view
          one_session_fields)
  have hr: "list_all (keeps_read_processor 0) later_ops \<and>
    0 \<in> set (client_ids (proxy (run_ops ?ops0 (system_init True)))) \<and>
    0 \<in> set (client_ids (proxy (run_ops later_ops (run_ops ?ops0 (system_init True)))))"
    using kr i0 i2 by (simp add: overridden_system_def)
  have hw: "list_all (keeps_write_processor 0) [SetReadProcessor 0 None, Accept] \<and>
    0 \<in> set (client_ids (proxy (run_ops ?ops0 (system_init True)))) \<and>
    0 \<in> set (client_ids (proxy (run_ops [SetReadProcessor 0 None, Accept]
           (run_ops ?ops0 (system_init True)))))"
    using kw i0 i3 by (simp add: overridden_system_def)
  note keep_r = C2_set_content_processors [where k = 0 and ops = later_ops and b = True and ?ops0.0 = ?ops0,
      THEN conjunct2, THEN conjunct2, THEN conjunct2, THEN conjunct2, THEN conjunct2,
      THEN conjunct1, rule_format, OF hr]
  note keep_w = C2_set_content_processors [where k = 0 and ops = "[SetReadProcessor 0 None, Accept]" and b = True
      and ?ops0.0 = ?ops0,
      THEN conjunct2, THEN conjunct2, THEN conjunct2, THEN conjunct2, THEN conjunct2,
      THEN conjunct2, rule_format, OF hw]
  have "session_read_processor (proxy (run_ops later_ops overridden_system)) 0 =
      session_read_processor overridden 0"
    using keep_r by (simp add: overridden_system_def [symmetric] overridden_system_eq)
  then have ap: "apply_read_processor (proxy (run_ops later_ops overridden_system)) 0 ''abc''
      = Inr ''cba''"
    by (simp add: apply_read_processor_srp s2 stored_processor_def awaitable_def
          reverse_processor_def)
  have "session_write_processor
      (proxy (run_ops [SetReadProcessor 0 None, Accept] overridden_system)) 0 =
      session_write_processor overridden 0"
    using keep_w by (simp add: overridden_system_def [symmetric] overridden_system_eq)
  then have wp: "session_write_processor
      (proxy (run_ops [SetReadProcessor 0 None, Accept] overridden_system)) 0
     = Some (Some blank_processor)"
    by (simp add: s3)
  from ids A i1 w1 s2 s3 kr i0 i2 ap kw i3 wp show ?thesis by (intro conjI)
qed

section \<open>Properties of closing all sessions\<close>

text \<open>The coroutine cut at its awaits does what \<open>close\<close> does in one piece: the events of
  an undisturbed \<^verbatim>\<open>close()\<close> lead to the same session and the same callbacks, whether the
  session was closed before or not.\<close>

lemma close_events_Nil: "close_events [] st = st"
  by (simp add: close_events_def)

lemma close_events_Cons:
  "close_events (e # evs) (ph, c, cbs) =
     close_events evs (fst (close_event e ph c), fst (snd (close_event e ph c)),
                       cbs @ snd (snd (close_event e ph c)))"
  by (simp add: close_events_def case_prod_unfold Let_def)

lemma close_events_append:
  "close_events (xs @ ys) st = close_events ys (close_events xs st)"
  by (simp add: close_events_def)

lemma map_upt_update:
  "n < m \<Longrightarrow> (map f [0..<m])[n := v] = map (\<lambda>i. if i = n then v else f i) [0..<m]"
  by (rule nth_equalityI) (simp_all add: nth_list_update)

lemma task_ends_fold:
  "n \<le> length (tasks c) \<Longrightarrow>
   close_events (map (\<lambda>j. TaskEnds i0 j (ended j)) [0..<n]) (ph, c, cbs) =
     (ph,
      c\<lparr>tasks := map (\<lambda>i. if i < n \<and> tasks c ! i = TaskCancelling
                          then task_end (ended i) else tasks c ! i) [0..<length (tasks c)]\<rparr>,
      cbs)"
proof (induction n)
  case 0
  then show ?case by (simp add: close_events_Nil map_nth)
next
  case (Suc n)
  let ?ts = "map (\<lambda>i. if i < n \<and> tasks c ! i = TaskCancelling
                          then task_end (ended i) else tasks c ! i) [0..<length (tasks c)]"
  have n: "n < length (tasks c)" using Suc.prems by simp
  have at_n: "?ts ! n = tasks c ! n" using n by simp
  have ne: "task_end (ended n) \<noteq> TaskCancelling" by (cases "ended n") simp_all
  have step: "close_event (TaskEnds i0 n (ended n)) ph (c\<lparr>tasks := ?ts\<rparr>) =
      (ph, c\<lparr>tasks := map (\<lambda>i. if i < Suc n \<and> tasks c ! i = TaskCancelling
                          then task_end (ended i) else tasks c ! i) [0..<length (tasks c)]\<rparr>, [])"
  proof (cases "tasks c ! n = TaskCancelling")
    case True
    have "?ts[n := task_end (ended n)] =
        map (\<lambda>i. if i < Suc n \<and> tasks c ! i = TaskCancelling
                          then task_end (ended i) else tasks c ! i) [0..<length (tasks c)]"
      using n True by (simp add: map_upt_update less_Suc_eq cong: map_cong)
    then show ?thesis
      using n at_n True by simp
  next
    case False
    have "?ts = map (\<lambda>i. if i < Suc n \<and> tasks c ! i = TaskCancelling
                          then task_end (ended i) else tasks c ! i) [0..<length (tasks c)]"
      using False by (auto simp: less_Suc_eq)
    then show ?thesis
      using n at_n False by simp
  qed
  have "close_events (map (\<lambda>j. TaskEnds i0 j (ended j)) [0..<Suc n]) (ph, c, cbs) =
        close_events [TaskEnds i0 n (ended n)]
          (close_events (map (\<lambda>j. TaskEnds i0 j (ended j)) [0..<n]) (ph, c, cbs))"
    by (simp add: close_events_append)
  also have "\<dots> = close_events [TaskEnds i0 n (ended n)] (ph, c\<lparr>tasks := ?ts\<rparr>, cbs)"
    using Suc by simp
  also have "\<dots> = (ph, c\<lparr>tasks := map (\<lambda>i. if i < Suc n \<and> tasks c ! i = TaskCancelling
                          then task_end (ended i) else tasks c ! i) [0..<length (tasks c)]\<rparr>, cbs)"
    unfolding close_events_Cons step by (simp add: close_events_Nil)
  finally show ?case .
qed


lemma callbacks_of_close_actions:
  "callbacks_of (map CancelTask xs @ map AwaitTask xs @ SetClosingResult # map RunCallback cbs)
     = cbs"
  by (simp add: callbacks_of_def comp_def)

lemma request_cancel_cases:
  "request_cancel t = TaskCancelling \<longleftrightarrow> \<not> task_done t"
  "task_done t \<Longrightarrow> request_cancel t = t"
  by (cases t; simp)+

lemma not_done_empty_iff: "not_done ts = [] \<longleftrightarrow> (\<forall>i < length ts. task_done (ts ! i))"
  by (auto simp: not_done_def filter_empty_conv)

lemma close_steps_open:
  assumes "\<not> state_done (closing c)"
  shows "close_events (close_schedule i0 ended c) (CloseStart, c, []) =
           (CloseEnded None, snd (close ended c), callbacks_of (fst (close ended c)))"
proof -
  let ?ts = "tasks c"
  let ?n = "length ?ts"
  let ?T = "map (\<lambda>i. if task_done (?ts ! i) then ?ts ! i else task_end (ended i)) [0..<?n]"
  have big: "snd (close ended c) = c\<lparr>tasks := ?T, closing := Finished True, closing_callbacks := []\<rparr>"
    "callbacks_of (fst (close ended c)) = closing_callbacks c"
    using assms by (simp_all add: close_def cancel_tasks_def callbacks_of_close_actions)
  have Tdone: "not_done ?T = []"
    by (simp add: not_done_empty_iff task_end_done)
  have mid: "close_events ([Step i0] @ map (\<lambda>j. TaskEnds i0 j (ended j)) [0..<?n]) (CloseStart, c, []) =
      (if not_done ?ts = [] then CloseAwaitClosing else CloseAwaitTasks, c\<lparr>tasks := ?T\<rparr>, [])"
  proof (cases "not_done ?ts = []")
    case True
    then have all: "\<forall>i < ?n. task_done (?ts ! i)"
      by (simp add: not_done_empty_iff)
    have nc: "\<forall>i < ?n. ?ts ! i \<noteq> TaskCancelling"
      using all by (metis task_done.simps(2))
    have e: "map (\<lambda>i. if i < ?n \<and> ?ts ! i = TaskCancelling then task_end (ended i) else ?ts ! i)
               [0..<?n] = ?T"
      using all nc by (intro map_cong) auto
    have "close_events ([Step i0] @ map (\<lambda>j. TaskEnds i0 j (ended j)) [0..<?n]) (CloseStart, c, []) =
        close_events (map (\<lambda>j. TaskEnds i0 j (ended j)) [0..<?n]) (CloseAwaitClosing, c, [])"
      using assms True by (simp add: close_events_Cons)
    also have "\<dots> = (CloseAwaitClosing, c\<lparr>tasks := ?T\<rparr>, [])"
      using task_ends_fold [of ?n c i0 ended CloseAwaitClosing "[]"] e by simp
    finally show ?thesis using True by simp
  next
    case False
    let ?c1 = "c\<lparr>tasks := map request_cancel ?ts\<rparr>"
    have e: "map (\<lambda>i. if i < ?n \<and> tasks ?c1 ! i = TaskCancelling then task_end (ended i)
                        else tasks ?c1 ! i) [0..<length (tasks ?c1)] = ?T"
      by (auto simp: request_cancel_cases intro!: map_cong)
    have "close_events ([Step i0] @ map (\<lambda>j. TaskEnds i0 j (ended j)) [0..<?n]) (CloseStart, c, []) =
        close_events (map (\<lambda>j. TaskEnds i0 j (ended j)) [0..<?n]) (CloseAwaitTasks, ?c1, [])"
      using assms False by (simp add: close_events_Cons)
    also have "\<dots> = (CloseAwaitTasks, ?c1\<lparr>tasks := ?T\<rparr>, [])"
      using task_ends_fold [of ?n ?c1 i0 ended CloseAwaitTasks "[]"] e by simp
    finally show ?thesis using False by simp
  qed
  have last: "close_events [Step i0, Step i0] (ph, c\<lparr>tasks := ?T\<rparr>, []) =
      (CloseEnded None, c\<lparr>tasks := ?T, closing := Finished True, closing_callbacks := []\<rparr>,
       closing_callbacks c)"
    if "ph = CloseAwaitClosing \<or> ph = CloseAwaitTasks" for ph
    using that assms Tdone
    by (auto simp: close_events_Cons close_events_Nil)
  have "close_events (close_schedule i0 ended c) (CloseStart, c, []) =
      close_events [Step i0, Step i0]
        (close_events ([Step i0] @ map (\<lambda>j. TaskEnds i0 j (ended j)) [0..<?n]) (CloseStart, c, []))"
    unfolding close_schedule_def using assms
    by (simp only: close_events_append append_assoc [symmetric] if_False)
  also have "\<dots> = (CloseEnded None,
      c\<lparr>tasks := ?T, closing := Finished True, closing_callbacks := []\<rparr>, closing_callbacks c)"
    unfolding mid by (rule last) simp
  finally show ?thesis
    using big by simp
qed

lemma close_steps_agree:
  "close_events (close_schedule i0 ended c) (CloseStart, c, []) =
     (CloseEnded None, snd (close ended c), callbacks_of (fst (close ended c)))"
proof (cases "state_done (closing c)")
  case True
  then show ?thesis
    by (simp add: close_schedule_def close_events_Cons close_events_Nil close_def callbacks_of_def)
next
  case False
  then show ?thesis by (rule close_steps_open)
qed

lemma map_of_run_callback:
  "map_of (clients (run_callback (RemoveClient i) p)) k' =
     (if k' = i then None else map_of (clients p) k')"
  by (simp add: map_of_remove)

lemma map_of_run_callbacks:
  "set cbs \<subseteq> {RemoveClient k} \<Longrightarrow>
   map_of (clients (run_callbacks cbs p)) k' =
     (if k' = k \<and> cbs \<noteq> [] then None else map_of (clients p) k')"
  unfolding run_callbacks_def
proof (induction cbs arbitrary: p)
  case Nil
  then show ?case by simp
next
  case (Cons cb cbs)
  then have cb: "cb = RemoveClient k" and rest: "set cbs \<subseteq> {RemoveClient k}"
    by auto
  show ?case
    using Cons.IH [OF rest, of "run_callback cb p"] cb
    by (simp add: map_of_remove)
qed

lemma owned_map_of:
  "owned p \<Longrightarrow> map_of (clients p) k = Some c \<Longrightarrow> set (closing_callbacks c) \<subseteq> {RemoveClient k}"
  by (auto simp: owned_def list_all_iff dest!: map_of_SomeD)

lemma owned_put_client:
  "owned p \<Longrightarrow> set (closing_callbacks c) \<subseteq> {RemoveClient k} \<Longrightarrow> owned (put_client k c p)"
  by (fastforce simp: owned_def list_all_iff put_client_def split: if_splits)

lemma owned_run_callback: "owned p \<Longrightarrow> owned (run_callback cb p)"
  by (cases cb) (auto simp: owned_def list_all_iff)

lemma owned_run_callbacks: "owned p \<Longrightarrow> owned (run_callbacks cbs p)"
  unfolding run_callbacks_def
  by (induction cbs arbitrary: p) (simp_all add: owned_run_callback del: run_callback.simps)

lemma close_event_callbacks:
  assumes "close_event e ph c = (ph', c', cbs)"
  shows "set cbs \<subseteq> set (closing_callbacks c)"
    and "set (closing_callbacks c') \<subseteq> set (closing_callbacks c)"
  using assms by (cases e; cases ph; auto split: if_splits)+

lemma close_event_closed:
  assumes "close_event e ph c = (ph', c', cbs)"
  shows "state_done (closing c) \<Longrightarrow> state_done (closing c')"
    and "ph' = CloseEnded None \<Longrightarrow> ph \<noteq> CloseEnded None \<Longrightarrow> state_done (closing c')"
  using assms by (cases e; cases ph; auto split: if_splits)+

lemma child_event_found:
  assumes "owned p" "map_of (clients p) k = Some c" "close_event e ph c = (ph', c', cbs)"
  shows "fst (child_event e k ph p) = ph'"
    and "map_of (clients (snd (child_event e k ph p))) k' =
           (if k' = k then (if cbs \<noteq> [] then None else Some c') else map_of (clients p) k')"
    and "owned (snd (child_event e k ph p))"
proof -
  have own: "set (closing_callbacks c) \<subseteq> {RemoveClient k}"
    using assms(1,2) by (rule owned_map_of)
  have cbs: "set cbs \<subseteq> {RemoveClient k}" and c': "set (closing_callbacks c') \<subseteq> {RemoveClient k}"
    using close_event_callbacks [OF assms(3)] own by auto
  have kin: "k \<in> set (client_ids p)"
    using assms(2) by (auto simp: client_ids_def dest!: map_of_SomeD intro: rev_image_eqI)
  have ce: "child_event e k ph p = (ph', run_callbacks cbs (put_client k c' p))"
    using assms(2,3) by (simp add: child_event_def)
  show "fst (child_event e k ph p) = ph'"
    by (simp add: ce)
  show "map_of (clients (snd (child_event e k ph p))) k' =
           (if k' = k then (if cbs \<noteq> [] then None else Some c') else map_of (clients p) k')"
    using kin by (simp add: ce map_of_run_callbacks [OF cbs] map_of_put_client)
  show "owned (snd (child_event e k ph p))"
    using assms(1) c' by (simp add: ce owned_run_callbacks owned_put_client)
qed

lemma child_event_missing:
  "map_of (clients p) k = None \<Longrightarrow> child_event e k ph p = (ph, p)"
  by (simp add: child_event_def)

lemma child_event_owned: "owned p \<Longrightarrow> owned (snd (child_event e k ph p))"
proof (cases "map_of (clients p) k")
  case None
  assume "owned p"
  with None show ?thesis by (simp add: child_event_missing)
next
  case (Some c)
  assume o: "owned p"
  obtain ph' c' cbs where ce: "close_event e ph c = (ph', c', cbs)"
    by (cases "close_event e ph c")
  show ?thesis by (rule child_event_found(3) [OF o Some ce])
qed

lemma child_event_other:
  assumes "owned p" "k' \<noteq> k"
  shows "map_of (clients (snd (child_event e k ph p))) k' = map_of (clients p) k'"
proof (cases "map_of (clients p) k")
  case None
  then show ?thesis by (simp add: child_event_missing)
next
  case (Some c)
  obtain ph' c' cbs where ce: "close_event e ph c = (ph', c', cbs)"
    by (cases "close_event e ph c")
  show ?thesis
    using child_event_found(2) [OF assms(1) Some ce, of k'] assms(2) by simp
qed

lemma child_event_same:
  assumes "owned p1" "owned p2" "map_of (clients p1) k = map_of (clients p2) k"
  shows "fst (child_event e k ph p1) = fst (child_event e k ph p2) \<and>
         map_of (clients (snd (child_event e k ph p1))) k =
         map_of (clients (snd (child_event e k ph p2))) k"
proof (cases "map_of (clients p1) k")
  case None
  with assms(3) show ?thesis by (simp add: child_event_missing)
next
  case (Some c)
  with assms(3) have s2: "map_of (clients p2) k = Some c" by simp
  obtain ph' c' cbs where ce: "close_event e ph c = (ph', c', cbs)"
    by (cases "close_event e ph c")
  show ?thesis
    using child_event_found(1,2) [OF assms(1) Some ce] child_event_found(1,2) [OF assms(2) s2 ce]
    by simp
qed

lemma child_event_closed:
  assumes "owned p"
  shows "closed_or_gone p k \<Longrightarrow> closed_or_gone (snd (child_event e k ph p)) k"
    and "fst (child_event e k ph p) = CloseEnded None \<Longrightarrow> ph \<noteq> CloseEnded None \<Longrightarrow>
         map_of (clients p) k \<noteq> None \<Longrightarrow> closed_or_gone (snd (child_event e k ph p)) k"
proof -
  show "closed_or_gone p k \<Longrightarrow> closed_or_gone (snd (child_event e k ph p)) k"
  proof (cases "map_of (clients p) k")
    case None
    assume "closed_or_gone p k"
    with None show ?thesis by (simp add: child_event_missing)
  next
    case (Some c)
    assume cg: "closed_or_gone p k"
    obtain ph' c' cbs where ce: "close_event e ph c = (ph', c', cbs)"
      by (cases "close_event e ph c")
    have "state_done (closing c')"
      using close_event_closed(1) [OF ce] cg Some by (simp add: closed_or_gone_def)
    then show ?thesis
      using child_event_found(2) [OF assms Some ce, of k] by (simp add: closed_or_gone_def)
  qed
  show "fst (child_event e k ph p) = CloseEnded None \<Longrightarrow> ph \<noteq> CloseEnded None \<Longrightarrow>
         map_of (clients p) k \<noteq> None \<Longrightarrow> closed_or_gone (snd (child_event e k ph p)) k"
  proof -
    assume a: "fst (child_event e k ph p) = CloseEnded None" "ph \<noteq> CloseEnded None"
      "map_of (clients p) k \<noteq> None"
    then obtain c where Some: "map_of (clients p) k = Some c" by auto
    obtain ph' c' cbs where ce: "close_event e ph c = (ph', c', cbs)"
      by (cases "close_event e ph c")
    have "ph' = CloseEnded None"
      using child_event_found(1) [OF assms Some ce] a(1) by simp
    then have "state_done (closing c')"
      using close_event_closed(2) [OF ce] a(2) by simp
    then show ?thesis
      using child_event_found(2) [OF assms Some ce, of k] by (simp add: closed_or_gone_def)
  qed
qed


lemma gather_event_eq:
  assumes "target e < length (children g)"
  shows "gather_event e g =
     g\<lparr>g_proxy := snd (child_event e (fst (children g ! target e)) (snd (children g ! target e))
                        (g_proxy g)),
       children := (children g)
        [target e := (fst (children g ! target e),
                      fst (child_event e (fst (children g ! target e))
                             (snd (children g ! target e)) (g_proxy g)))]\<rparr>"
  using assms by (simp add: gather_event_def case_prod_unfold Let_def)

lemma gather_event_skip: "\<not> target e < length (children g) \<Longrightarrow> gather_event e g = g"
  by (simp add: gather_event_def)

lemma gather_event_keys: "map fst (children (gather_event e g)) = map fst (children g)"
proof (cases "target e < length (children g)")
  case True
  then show ?thesis
    by (simp add: gather_event_eq map_update list_update_same_conv)
next
  case False
  then show ?thesis by (simp add: gather_event_skip)
qed

lemma gather_event_length: "length (children (gather_event e g)) = length (children g)"
  using gather_event_keys [of e g] by (metis length_map)

lemma gather_event_key:
  "i < length (children g) \<Longrightarrow> fst (children (gather_event e g) ! i) = fst (children g ! i)"
  using gather_event_keys [of e g] gather_event_length [of e g]
  by (metis nth_map)

lemma gather_event_wf: "gathering_wf g \<Longrightarrow> gathering_wf (gather_event e g)"
proof (cases "target e < length (children g)")
  case True
  assume wf: "gathering_wf g"
  have "owned (g_proxy (gather_event e g))"
    using wf by (simp add: gather_event_eq [OF True] gathering_wf_def child_event_owned)
  then show ?thesis
    using wf gather_event_keys [of e g] by (simp add: gathering_wf_def)
next
  case False
  assume "gathering_wf g"
  with False show ?thesis by (simp add: gather_event_skip)
qed

lemma distinct_keys:
  assumes "gathering_wf g" "i < length (children g)" "j < length (children g)" "i \<noteq> j"
  shows "fst (children g ! i) \<noteq> fst (children g ! j)"
proof -
  have "distinct (map fst (children g))"
    using assms(1) by (simp add: gathering_wf_def)
  then have "(map fst (children g) ! i = map fst (children g) ! j) = (i = j)"
    using assms(2,3) by (intro nth_eq_iff_index_eq) simp_all
  moreover have "map fst (children g) ! i = fst (children g ! i)"
    "map fst (children g) ! j = fst (children g ! j)"
    using assms(2,3) by (simp_all only: nth_map)
  ultimately show ?thesis
    using assms(4) by simp
qed

lemma gather_event_other:
  assumes "gathering_wf g" "i < length (children g)" "target e \<noteq> i"
  shows "child_view i (gather_event e g) = child_view i g"
proof (cases "target e < length (children g)")
  case False
  then show ?thesis by (simp add: gather_event_skip)
next
  case True
  have ne: "fst (children g ! i) \<noteq> fst (children g ! target e)"
    using distinct_keys [OF assms(1,2) True] assms(3) by simp
  have own: "owned (g_proxy g)"
    using assms(1) by (simp add: gathering_wf_def)
  show ?thesis
    using assms(2,3) child_event_other [OF own ne]
    by (simp add: child_view_def gather_event_eq [OF True])
qed

lemma gather_event_same:
  assumes "gathering_wf g" "gathering_wf g'" "i < length (children g)" "i < length (children g')"
    "child_view i g = child_view i g'" "target e = i"
  shows "child_view i (gather_event e g) = child_view i (gather_event e g')"
proof -
  have t: "target e < length (children g)" "target e < length (children g')"
    using assms(3,4,6) by simp_all
  have ch: "children g ! i = children g' ! i"
    using assms(5) by (simp add: child_view_def)
  have "snd (child_view i g) = snd (child_view i g')"
    using assms(5) by simp
  then have "map_of (clients (g_proxy g)) (fst (children g ! i)) =
             map_of (clients (g_proxy g')) (fst (children g' ! i))"
    unfolding child_view_def snd_conv .
  then have mo: "map_of (clients (g_proxy g)) (fst (children g ! i)) =
             map_of (clients (g_proxy g')) (fst (children g ! i))"
    by (simp only: ch)
  have own: "owned (g_proxy g)" "owned (g_proxy g')"
    using assms(1,2) by (simp_all add: gathering_wf_def)
  note same = child_event_same [OF own mo, of e "snd (children g ! i)"]
  show ?thesis
    using assms(3,4,6) ch same
    by (simp add: child_view_def gather_event_eq [OF t(1)] gather_event_eq [OF t(2)])
qed

lemma gather_run_wf: "gathering_wf g \<Longrightarrow> gathering_wf (gather_run evs g)"
  unfolding gather_run_def
  by (induction evs arbitrary: g) (simp_all add: gather_event_wf)

lemma gather_run_keys: "map fst (children (gather_run evs g)) = map fst (children g)"
  unfolding gather_run_def
  by (induction evs arbitrary: g) (simp_all add: gather_event_keys)

lemma gather_run_length: "length (children (gather_run evs g)) = length (children g)"
  using gather_run_keys [of evs g] by (metis length_map)

lemma gather_run_view:
  assumes "gathering_wf g" "gathering_wf g'" "i < length (children g)" "i < length (children g')"
    "child_view i g = child_view i g'"
  shows "child_view i (gather_run evs g) =
         child_view i (gather_run (filter (\<lambda>e. target e = i) evs) g')"
  using assms
proof (induction evs arbitrary: g g')
  case Nil
  then show ?case by (simp add: gather_run_def)
next
  case (Cons e evs)
  show ?case
  proof (cases "target e = i")
    case True
    have "child_view i (gather_event e g) = child_view i (gather_event e g')"
      using Cons.prems True by (intro gather_event_same) simp_all
    then have "child_view i (gather_run evs (gather_event e g)) =
         child_view i (gather_run (filter (\<lambda>e. target e = i) evs) (gather_event e g'))"
      using Cons.prems
      by (intro Cons.IH) (simp_all add: gather_event_wf gather_event_length)
    then show ?thesis
      using True by (simp add: gather_run_def)
  next
    case False
    have "child_view i (gather_event e g) = child_view i g"
      using Cons.prems False by (intro gather_event_other) simp_all
    then have "child_view i (gather_run evs (gather_event e g)) =
         child_view i (gather_run (filter (\<lambda>e. target e = i) evs) g')"
      using Cons.prems
      by (intro Cons.IH) (simp_all add: gather_event_wf gather_event_length)
    then show ?thesis
      using False by (simp add: gather_run_def)
  qed
qed

lemma gather_event_ended_closed:
  assumes "gathering_wf g" "ended_closed g"
  shows "ended_closed (gather_event e g)"
proof (cases "target e < length (children g)")
  case False
  with assms(2) show ?thesis by (simp add: gather_event_skip)
next
  case True
  have own: "owned (g_proxy g)"
    using assms(1) by (simp add: gathering_wf_def)
  show ?thesis
    unfolding ended_closed_def
  proof (intro allI impI)
    fix i
    assume i: "i < length (children (gather_event e g))"
      and en: "snd (children (gather_event e g) ! i) = CloseEnded None"
    have i': "i < length (children g)"
      using i by (simp add: gather_event_length)
    let ?k = "fst (children g ! i)"
    have key: "fst (children (gather_event e g) ! i) = ?k"
      using i' by (rule gather_event_key)
    show "closed_or_gone (g_proxy (gather_event e g)) (fst (children (gather_event e g) ! i))"
    proof (cases "target e = i")
      case False
      have "child_view i (gather_event e g) = child_view i g"
        using assms(1) i' False by (intro gather_event_other) simp_all
      then have ph: "snd (children g ! i) = CloseEnded None"
        and mo: "map_of (clients (g_proxy (gather_event e g))) ?k =
                 map_of (clients (g_proxy g)) ?k"
        using en key by (simp_all add: child_view_def)
      have "closed_or_gone (g_proxy g) ?k"
        using assms(2) i' ph by (simp add: ended_closed_def)
      then show ?thesis
        using mo key by (simp add: closed_or_gone_def)
    next
      case t: True
      let ?ph = "snd (children g ! i)"
      have px: "g_proxy (gather_event e g) = snd (child_event e ?k ?ph (g_proxy g))"
        and ph': "snd (children (gather_event e g) ! i) = fst (child_event e ?k ?ph (g_proxy g))"
        using i' t by (simp_all add: gather_event_eq [OF True])
      show ?thesis
      proof (cases "?ph = CloseEnded None")
        case True
        then have "closed_or_gone (g_proxy g) ?k"
          using assms(2) i' by (simp add: ended_closed_def)
        then show ?thesis
          unfolding key px by (rule child_event_closed(1) [OF own])
      next
        case False
        have "map_of (clients (g_proxy g)) ?k \<noteq> None"
        proof
          assume "map_of (clients (g_proxy g)) ?k = None"
          then have "fst (child_event e ?k ?ph (g_proxy g)) = ?ph"
            by (simp add: child_event_missing)
          with en ph' False show False by simp
        qed
        then show ?thesis
          unfolding key px
          using en ph' False by (intro child_event_closed(2) [OF own]) simp_all
      qed
    qed
  qed
qed

lemma gather_run_ended_closed:
  "gathering_wf g \<Longrightarrow> ended_closed g \<Longrightarrow> ended_closed (gather_run evs g)"
  unfolding gather_run_def
  by (induction evs arbitrary: g) (simp_all add: gather_event_ended_closed gather_event_wf)

lemma disconnect_all_children:
  "children (disconnect_all p) = map (\<lambda>k. (k, CloseStart)) (client_ids p)"
  by (simp add: disconnect_all_def gather_def client_ids_def case_prod_unfold)

lemma disconnect_all_ended_closed: "ended_closed (disconnect_all p)"
  by (simp add: ended_closed_def disconnect_all_children)

lemma disconnect_all_wf:
  "owned p \<Longrightarrow> distinct (client_ids p) \<Longrightarrow> gathering_wf (disconnect_all p)"
  by (simp add: gathering_wf_def disconnect_all_children comp_def)
     (simp add: disconnect_all_def gather_def)


lemma owned_view:
  "owned p \<longleftrightarrow>
     list_all (\<lambda>(k, cbs). set cbs \<subseteq> {RemoveClient k})
       (map (\<lambda>(k, c). (k, closing_callbacks c)) (clients p))"
  by (simp add: owned_def list.pred_map comp_def case_prod_unfold)

lemma apply_delays_entries:
  "map (\<lambda>(k, c). (k, closing_callbacks c)) (state_of (apply_delays r w cs)) =
   map (\<lambda>(k, c). (k, closing_callbacks c)) cs"
  by (induction cs) (auto split: result.splits)

lemma owned_set_delay: "owned p \<Longrightarrow> owned (state_of (set_delay p r w))"
  using apply_delays_entries [of r w "clients p"]
  by (auto simp: owned_view set_delay_def split: result.splits)

lemma owned_set_content_processors: "owned p \<Longrightarrow> owned (set_content_processors p r w)"
  by (simp add: owned_def set_content_processors_def list.pred_map comp_def case_prod_unfold
        set_processor_callbacks)

lemma owned_set_client_read_processor:
  assumes "owned p"
  shows "owned (set_client_read_processor k v p)"
proof (cases "map_of (clients p) k")
  case None
  with assms show ?thesis by (simp add: set_client_read_processor_def)
next
  case (Some c)
  have "owned (put_client k (set_read_processor c v) p)"
    using assms owned_map_of [OF assms Some]
    by (intro owned_put_client) (simp_all add: set_processor_callbacks)
  with Some show ?thesis by (simp add: set_client_read_processor_def)
qed

lemma owned_set_client_write_processor:
  assumes "owned p"
  shows "owned (set_client_write_processor k v p)"
proof (cases "map_of (clients p) k")
  case None
  with assms show ?thesis by (simp add: set_client_write_processor_def)
next
  case (Some c)
  have "owned (put_client k (set_write_processor c v) p)"
    using assms owned_map_of [OF assms Some]
    by (intro owned_put_client) (simp_all add: set_processor_callbacks)
  with Some show ?thesis by (simp add: set_client_write_processor_def)
qed

lemma owned_handle_client_begin:
  assumes "owned p"
  shows "owned (state_of (handle_client_begin p))"
proof -
  let ?p0 = "p\<lparr>clients := clients p @ [(next_id p, TCPProxyClient_init (p_buffered p))],
              next_id := Suc (next_id p)\<rparr>"
  obtain c where c: "closing_callbacks c = []"
    "state_of (handle_client_begin p) = put_client (next_id p) c ?p0"
    using handle_client_begin_shape by blast
  have "owned ?p0"
    using assms by (simp add: owned_def TCPProxyClient_init_def)
  then show ?thesis
    unfolding c(2) using c(1) by (intro owned_put_client) simp_all
qed

lemma owned_handle_client_end:
  assumes "owned p"
  shows "owned (state_of (handle_client_end k outcome p))"
proof (cases "map_of (clients p) k")
  case None
  with assms show ?thesis by (simp add: handle_client_end_def)
next
  case (Some c)
  note cb = owned_map_of [OF assms Some]
  show ?thesis
  proof (cases "connect c outcome")
    case (Raised e c')
    then have "closing_callbacks c' = closing_callbacks c"
      using connect_callbacks [of c outcome] by simp
    then show ?thesis
      using Some Raised cb assms by (simp add: handle_client_end_def owned_put_client)
  next
    case (Returned c')
    then have eq: "closing_callbacks c' = closing_callbacks c"
      using connect_callbacks [of c outcome] by simp
    show ?thesis
    proof (cases "state_done (closing c')")
      case True
      have "owned (run_callback (RemoveClient k) (put_client k c' p))"
        using assms eq cb by (intro owned_run_callback owned_put_client) simp_all
      then show ?thesis
        using Some Returned True by (simp add: handle_client_end_def del: run_callback.simps)
    next
      case False
      have "owned (put_client k
              (c'\<lparr>closing_callbacks := closing_callbacks c' @ [RemoveClient k]\<rparr>) p)"
        using assms eq cb by (intro owned_put_client) auto
      then show ?thesis
        using Some Returned False by (simp add: handle_client_end_def)
    qed
  qed
qed

lemma owned_close_client:
  assumes "owned p"
  shows "owned (close_client ended k p)"
proof (cases "map_of (clients p) k")
  case None
  with assms show ?thesis by (simp add: close_client_def)
next
  case (Some c)
  obtain acts c' where cl: "close ended c = (acts, c')" by (cases "close ended c")
  have "set (closing_callbacks c') \<subseteq> {RemoveClient k}"
    using close_callbacks [of ended c] cl owned_map_of [OF assms Some] by auto
  then have "owned (run_callbacks (callbacks_of acts) (put_client k c' p))"
    using assms by (intro owned_run_callbacks owned_put_client)
  then show ?thesis
    using Some cl by (simp add: close_client_def)
qed

lemma owned_step: "owned (proxy s) \<Longrightarrow> owned (proxy (run_op x s))"
proof (cases x)
  case Accept
  assume "owned (proxy s)"
  then have "owned (state_of (handle_client_begin (proxy s)))"
    by (rule owned_handle_client_begin)
  then show ?thesis
    using Accept by (auto split: result.splits)
qed (simp_all add: owned_set_delay owned_set_content_processors owned_set_client_read_processor
       owned_set_client_write_processor owned_handle_client_end owned_close_client)

lemma owned_run: "owned (proxy s) \<Longrightarrow> owned (proxy (run_ops ops s))"
  unfolding run_ops_def
  by (induction ops arbitrary: s) (simp_all add: owned_step)

lemma run_callback_client_ids:
  "client_ids (run_callback (RemoveClient i) p) = filter (\<lambda>j. j \<noteq> i) (client_ids p)"
  by (simp add: client_ids_def filter_map comp_def case_prod_unfold)

lemma distinct_run_callbacks:
  "distinct (client_ids p) \<Longrightarrow> distinct (client_ids (run_callbacks cbs p))"
  unfolding run_callbacks_def
proof (induction cbs arbitrary: p)
  case Nil
  then show ?case by simp
next
  case (Cons cb cbs)
  obtain i where cb: "cb = RemoveClient i" by (cases cb)
  have "distinct (client_ids (run_callback cb p))"
    unfolding cb run_callback_client_ids using Cons.prems by simp
  then show ?case
    using Cons.IH [of "run_callback cb p"] by simp
qed

lemma distinct_handle_client_end:
  "distinct (client_ids p) \<Longrightarrow> distinct (client_ids (state_of (handle_client_end k outcome p)))"
  by (auto simp: handle_client_end_def put_client_ids run_callback_client_ids
        simp del: run_callback.simps split: option.splits result.splits)

lemma distinct_close_client:
  "distinct (client_ids p) \<Longrightarrow> distinct (client_ids (close_client ended k p))"
  by (auto simp: close_client_def put_client_ids intro!: distinct_run_callbacks
        split: option.splits prod.splits)

lemma distinct_step:
  assumes "reachable_inv s" "distinct (client_ids (proxy s))"
  shows "distinct (client_ids (proxy (run_op x s)))"
proof (cases x)
  case Accept
  have "next_id (proxy s) \<notin> set (client_ids (proxy s))"
    using assms(1) by (auto simp: reachable_inv_def)
  then have "distinct (client_ids (state_of (handle_client_begin (proxy s))))"
    using assms(2) by (simp add: handle_client_begin_view(1))
  then show ?thesis
    using Accept by (auto split: result.splits)
qed (use assms(2) in \<open>simp_all add: set_delay_ids set_content_processors_view
       set_client_read_processor_view set_client_write_processor_view
       distinct_handle_client_end distinct_close_client\<close>)

lemma reachable_wf:
  "owned (proxy (run_ops ops (system_init b))) \<and>
   distinct (client_ids (proxy (run_ops ops (system_init b))))"
proof -
  have o: "owned (proxy (system_init b))"
    by (simp add: owned_def system_init_def TCPProxy_init_def)
  have "reachable_inv s \<Longrightarrow> distinct (client_ids (proxy s)) \<Longrightarrow>
        distinct (client_ids (proxy (fold run_op ops s)))" for s
    by (induction ops arbitrary: s) (simp_all add: distinct_step reachable_inv_step)
  then have "distinct (client_ids (proxy (run_ops ops (system_init b))))"
    unfolding run_ops_def
    using reachable_inv_init [of b]
    by (simp add: system_init_def TCPProxy_init_def client_ids_def)
  with owned_run [OF o] show ?thesis by simp
qed


text \<open>A coroutine that has ended stays as it is, and the done callbacks of \<^verbatim>\<open>closing\<close> are
  called only by the event that ends it. So the child of a gathering and its session go
  through the events addressed to the child as \<open>close_events\<close> says, up to the removal of the
  session from the set.\<close>

lemma close_event_ended:
  "phase_ended ph \<Longrightarrow> fst (close_event e ph c) = ph \<and> snd (snd (close_event e ph c)) = []"
  by (cases ph; cases e) simp_all

lemma close_event_fires:
  "snd (snd (close_event e ph c)) \<noteq> [] \<Longrightarrow> phase_ended (fst (close_event e ph c))"
  by (cases ph; cases e) (simp_all split: if_splits)

lemma close_events_ended:
  "phase_ended ph \<Longrightarrow> fst (close_events evs (ph, c, cbs)) = ph"
proof (induction evs arbitrary: c cbs)
  case Nil
  then show ?case by (simp add: close_events_Nil)
next
  case (Cons e evs)
  from close_event_ended [OF Cons.prems, of e c] Cons.IH [OF Cons.prems]
  show ?case by (simp add: close_events_Cons)
qed

lemma close_events_fired:
  "cbs \<noteq> [] \<Longrightarrow> snd (snd (close_events evs (ph, c, cbs))) \<noteq> []"
proof (induction evs arbitrary: ph c cbs)
  case Nil
  then show ?case by (simp add: close_events_Nil)
next
  case (Cons e evs)
  then show ?case by (simp add: close_events_Cons)
qed

lemma gather_event_gone:
  assumes "target e < length (children g)" "children g ! target e = (k, ph)"
    "map_of (clients (g_proxy g)) k = None"
  shows "gather_event e g = g"
proof -
  have "(children g)[target e := (k, ph)] = children g"
    using assms(2) by (metis list_update_id)
  then show ?thesis
    using assms by (simp add: gather_event_def child_event_missing)
qed

lemma gather_run_gone:
  assumes "i < length (children g)" "children g ! i = (k, ph)"
    "map_of (clients (g_proxy g)) k = None" "\<forall>e \<in> set evs. target e = i"
  shows "gather_run evs g = g"
  using assms(4)
proof (induction evs)
  case Nil
  then show ?case by (simp add: gather_run_def)
next
  case (Cons e evs)
  have "gather_event e g = g"
    using assms(1-3) Cons.prems by (intro gather_event_gone) simp_all
  with Cons show ?case by (simp add: gather_run_def)
qed

lemma gather_run_close_events:
  assumes "gathering_wf g" "i < length (children g)" "children g ! i = (k, ph)"
    "map_of (clients (g_proxy g)) k = Some c" "\<forall>e \<in> set evs. target e = i"
  shows "child_view i (gather_run evs g) =
           ((k, fst (close_events evs (ph, c, []))),
            if snd (snd (close_events evs (ph, c, []))) \<noteq> [] then None
            else Some (fst (snd (close_events evs (ph, c, [])))))"
  using assms
proof (induction evs arbitrary: g ph c)
  case Nil
  then show ?case by (simp add: gather_run_def close_events_Nil child_view_def)
next
  case (Cons e evs)
  obtain ph1 c1 cbs1 where ce: "close_event e ph c = (ph1, c1, cbs1)"
    by (cases "close_event e ph c")
  have t: "target e = i" and rest: "\<forall>e \<in> set evs. target e = i"
    using Cons.prems(5) by simp_all
  have own: "owned (g_proxy g)"
    using Cons.prems(1) by (simp add: gathering_wf_def)
  let ?g1 = "gather_event e g"
  have tl: "target e < length (children g)" using t Cons.prems(2) by simp
  have g1: "?g1 = g\<lparr>g_proxy := snd (child_event e k ph (g_proxy g)),
                    children := (children g)[i := (k, fst (child_event e k ph (g_proxy g)))]\<rparr>"
    using gather_event_eq [OF tl] t Cons.prems(3) by simp
  note f = child_event_found [OF own Cons.prems(4) ce]
  have ch1: "children ?g1 ! i = (k, ph1)"
    using Cons.prems(2) f(1) by (simp add: g1)
  have mo1: "map_of (clients (g_proxy ?g1)) k = (if cbs1 \<noteq> [] then None else Some c1)"
    using f(2) [of k] by (simp add: g1)
  have wf1: "gathering_wf ?g1"
    using Cons.prems(1) by (rule gather_event_wf)
  have len1: "i < length (children ?g1)"
    using Cons.prems(2) by (simp add: gather_event_length)
  have run: "gather_run (e # evs) g = gather_run evs ?g1"
    by (simp add: gather_run_def)
  have ces: "close_events (e # evs) (ph, c, []) = close_events evs (ph1, c1, cbs1)"
    by (simp add: close_events_Cons ce)
  show ?case
  proof (cases "cbs1 = []")
    case True
    have "child_view i (gather_run evs ?g1) =
           ((k, fst (close_events evs (ph1, c1, []))),
            if snd (snd (close_events evs (ph1, c1, []))) \<noteq> [] then None
            else Some (fst (snd (close_events evs (ph1, c1, [])))))"
      using wf1 len1 ch1 mo1 True rest by (intro Cons.IH) simp_all
    then show ?thesis
      unfolding run ces using True by simp
  next
    case False
    have en: "phase_ended ph1"
      using close_event_fires [of e ph c] ce False by simp
    have gone: "map_of (clients (g_proxy ?g1)) k = None"
      using mo1 False by simp
    have "gather_run evs ?g1 = ?g1"
      using len1 ch1 gone rest by (rule gather_run_gone)
    then have "child_view i (gather_run evs ?g1) = ((k, ph1), None)"
      using ch1 gone by (simp add: child_view_def)
    moreover have "fst (close_events evs (ph1, c1, cbs1)) = ph1"
      using en by (rule close_events_ended)
    moreover have "snd (snd (close_events evs (ph1, c1, cbs1))) \<noteq> []"
      using False by (rule close_events_fired)
    ultimately show ?thesis
      unfolding run ces by simp
  qed
qed

lemma close_schedule_target: "\<forall>e \<in> set (close_schedule i ended c). target e = i"
  by (auto simp: close_schedule_def)

lemma close_client_session:
  assumes "owned p" "map_of (clients p) k = Some c"
  shows "map_of (clients (close_client ended k p)) k =
           (if callbacks_of (fst (close ended c)) \<noteq> [] then None else Some (snd (close ended c)))"
proof -
  have cb: "set (callbacks_of (fst (close ended c))) \<subseteq> {RemoveClient k}"
    using callbacks_of_close [of ended c] owned_map_of [OF assms] by blast
  have kin: "k \<in> set (client_ids p)"
    using assms(2) by (rule map_of_ids)
  show ?thesis
    using assms(2) kin
    by (simp add: close_client_def case_prod_unfold Let_def map_of_run_callbacks [OF cb]
          map_of_put_client)
qed

lemma gather_undisturbed:
  assumes "gathering_wf g" "i < length (children g)" "children g ! i = (k, CloseStart)"
    "map_of (clients (g_proxy g)) k = Some c"
  shows "child_view i (gather_run (close_schedule i ended c) g) =
           ((k, CloseEnded None), map_of (clients (close_client ended k (g_proxy g))) k)"
proof -
  have own: "owned (g_proxy g)"
    using assms(1) by (simp add: gathering_wf_def)
  show ?thesis
    using gather_run_close_events [OF assms close_schedule_target, of ended]
    by (simp add: close_steps_agree close_client_session [OF own assms(4)])
qed


text \<open>The events on the children do not look at the future of the gathering, and its done
  callback does not touch the children or the proxy.\<close>

lemma gather_event_frame:
  "gather_event e (g\<lparr>notified := n, outer := r\<rparr>) = (gather_event e g)\<lparr>notified := n, outer := r\<rparr>"
  by (simp add: gather_event_def case_prod_unfold Let_def)

lemma gather_run_frame:
  "gather_run evs (g\<lparr>notified := n, outer := r\<rparr>) = (gather_run evs g)\<lparr>notified := n, outer := r\<rparr>"
  unfolding gather_run_def
  by (induction evs arbitrary: g) (simp_all add: gather_event_frame)

lemma done_callback_frame: "\<exists>n r. done_callback i g = g\<lparr>notified := n, outer := r\<rparr>"
proof -
  have "done_callback i g =
      g\<lparr>notified := notified (done_callback i g), outer := outer (done_callback i g)\<rparr>"
    by (cases g) (auto simp: done_callback_def Let_def)
  then show ?thesis by blast
qed

lemma loop_run_frame:
  "\<exists>n r. loop_run steps g = (gather_run (child_events steps) g)\<lparr>notified := n, outer := r\<rparr>"
  unfolding loop_run_def
proof (induction steps arbitrary: g)
  case Nil
  have "g = g\<lparr>notified := notified g, outer := outer g\<rparr>" by simp
  then have "\<exists>n r. g = g\<lparr>notified := n, outer := r\<rparr>" by blast
  then show ?case by (simp add: gather_run_def)
next
  case (Cons st steps)
  show ?case
  proof (cases st)
    case (Child e)
    from Cons [of "gather_event e g"] Child show ?thesis
      by (simp add: gather_run_def)
  next
    case (Notify i)
    obtain n r where d: "done_callback i g = g\<lparr>notified := n, outer := r\<rparr>"
      using done_callback_frame by blast
    from Cons [of "g\<lparr>notified := n, outer := r\<rparr>"]
    obtain n' r' where "fold loop_step steps (g\<lparr>notified := n, outer := r\<rparr>) =
        (gather_run (child_events steps) (g\<lparr>notified := n, outer := r\<rparr>))\<lparr>notified := n', outer := r'\<rparr>"
      by blast
    then have "fold loop_step (st # steps) g =
        (gather_run (child_events (st # steps)) g)\<lparr>notified := n', outer := r'\<rparr>"
      using Notify d by (simp add: gather_run_frame)
    then show ?thesis by blast
  qed
qed

lemma loop_run_view:
  "children (loop_run steps g) = children (gather_run (child_events steps) g)"
  "g_proxy (loop_run steps g) = g_proxy (gather_run (child_events steps) g)"
  "child_view i (loop_run steps g) = child_view i (gather_run (child_events steps) g)"
proof -
  obtain n r where
    "loop_run steps g = (gather_run (child_events steps) g)\<lparr>notified := n, outer := r\<rparr>"
    using loop_run_frame by blast
  then show "children (loop_run steps g) = children (gather_run (child_events steps) g)"
    "g_proxy (loop_run steps g) = g_proxy (gather_run (child_events steps) g)"
    "child_view i (loop_run steps g) = child_view i (gather_run (child_events steps) g)"
    by (simp_all add: child_view_def)
qed

text \<open>\<open>gather_inv\<close> holds for what \<^verbatim>\<open>disconnect_all\<close> creates and after every step of the loop.\<close>

lemma gather_event_stable:
  assumes "j < length (children g)" "phase_ended (snd (children g ! j))"
  shows "children (gather_event e g) ! j = children g ! j"
proof (cases "target e < length (children g)")
  case False
  then show ?thesis by (simp add: gather_event_skip)
next
  case True
  show ?thesis
  proof (cases "target e = j")
    case False
    with True assms(1) show ?thesis by (simp add: gather_event_eq)
  next
    case t: True
    obtain k ph where kp: "children g ! j = (k, ph)" by (cases "children g ! j")
    with assms(2) have en: "phase_ended ph" by simp
    have "fst (child_event e k ph (g_proxy g)) = ph"
    proof (cases "map_of (clients (g_proxy g)) k")
      case None
      then show ?thesis by (simp add: child_event_missing)
    next
      case (Some c)
      with close_event_ended [OF en, of e c] show ?thesis
        by (simp add: child_event_def case_prod_unfold Let_def)
    qed
    with True t kp assms(1) show ?thesis by (simp add: gather_event_eq)
  qed
qed

lemma gather_event_fields:
  "notified (gather_event e g) = notified g"
  "outer (gather_event e g) = outer g"
  "return_exceptions (gather_event e g) = return_exceptions g"
  by (simp_all add: gather_event_def case_prod_unfold Let_def)

lemma all_ended_nth: "all_ended g \<longleftrightarrow> (\<forall>j < length (children g). phase_ended (snd (children g ! j)))"
  by (auto simp: all_ended_def list_all_length case_prod_unfold)

lemma gather_event_all_ended:
  assumes "all_ended g"
  shows "children (gather_event e g) = children g"
proof (rule nth_equalityI)
  show "length (children (gather_event e g)) = length (children g)"
    by (rule gather_event_length)
next
  fix j assume "j < length (children (gather_event e g))"
  then have j: "j < length (children g)" by (simp add: gather_event_length)
  with assms have "phase_ended (snd (children g ! j))" by (simp add: all_ended_nth)
  with j show "children (gather_event e g) ! j = children g ! j"
    by (rule gather_event_stable)
qed

lemma gather_inv_child:
  assumes "gather_inv g"
  shows "gather_inv (gather_event e g)"
proof -
  let ?g' = "gather_event e g"
  have len: "length (children ?g') = length (children g)"
    by (rule gather_event_length)
  have n: "\<forall>i \<in> set (notified g). i < length (children ?g') \<and> phase_ended (snd (children ?g' ! i))"
    using assms gather_event_stable [of _ g e] by (auto simp: gather_inv_def len)
  have o: "outer g \<noteq> None \<longrightarrow> all_ended ?g' \<and> outer g = Some (Inr (outcomes ?g'))"
  proof
    assume "outer g \<noteq> None"
    with assms have a: "all_ended g" "outer g = Some (Inr (outcomes g))"
      by (simp_all add: gather_inv_def)
    have "children ?g' = children g"
      using a(1) by (rule gather_event_all_ended)
    with a show "all_ended ?g' \<and> outer g = Some (Inr (outcomes ?g'))"
      by (simp add: all_ended_def outcomes_def)
  qed
  show ?thesis
    using assms n o by (simp add: gather_inv_def gather_event_fields len)
qed

lemma full_notified:
  assumes "distinct ns" "\<forall>i \<in> set ns. i < n" "length ns = n"
  shows "set ns = {..<n}"
proof -
  have "set ns \<subseteq> {..<n}" using assms(2) by auto
  moreover have "card (set ns) = card {..<n}"
    using assms(1,3) by (simp add: distinct_card)
  ultimately show ?thesis
    by (intro card_subset_eq) simp_all
qed

lemma gather_inv_notify:
  assumes "gather_inv g"
  shows "gather_inv (done_callback i g)"
proof (cases "i < length (children g) \<and> phase_ended (snd (children g ! i)) \<and> i \<notin> set (notified g)")
  case False
  have "done_callback i g = g"
    unfolding done_callback_def by (rule if_not_P) (rule False)
  with assms show ?thesis by simp
next
  case True
  let ?n = "length (children g)"
  let ?ns = "notified g @ [i]"
  have re: "return_exceptions g" and d: "distinct (notified g)"
    and en: "\<forall>j \<in> set (notified g). j < ?n \<and> phase_ended (snd (children g ! j))"
    using assms by (simp_all add: gather_inv_def)
  have d': "distinct ?ns" using d True by simp
  have en': "\<forall>j \<in> set ?ns. j < ?n \<and> phase_ended (snd (children g ! j))"
    using en True by simp
  show ?thesis
  proof (cases "outer g = None")
    case False
    with assms have "all_ended g" "outer g = Some (Inr (outcomes g))"
      by (simp_all add: gather_inv_def)
    with True False re d' en' show ?thesis
      by (simp add: done_callback_def Let_def gather_inv_def all_ended_def outcomes_def)
  next
    case pending: True
    show ?thesis
    proof (cases "length ?ns = ?n")
      case full: True
      have "set ?ns = {..<?n}"
        using d' en' full by (intro full_notified) auto
      then have "\<forall>j < ?n. phase_ended (snd (children g ! j))"
        using en' by blast
      then have "all_ended g" by (simp add: all_ended_nth)
      with True pending full re d' en' show ?thesis
        by (simp add: done_callback_def Let_def gather_inv_def all_ended_def outcomes_def)
    next
      case False
      have "length ?ns \<le> ?n"
      proof -
        have "set ?ns \<subseteq> {..<?n}" using en' by auto
        then have "card (set ?ns) \<le> card {..<?n}" by (intro card_mono) simp_all
        then show ?thesis using d' by (simp add: distinct_card)
      qed
      with False have "length ?ns < ?n" by simp
      with True pending False re d' en' show ?thesis
        by (simp add: done_callback_def Let_def gather_inv_def)
    qed
  qed
qed

lemma gather_inv_init: "gather_inv (disconnect_all p)"
  by (simp add: gather_inv_def disconnect_all_def gather_def all_ended_def outcomes_def)

lemma gather_inv_run: "gather_inv g \<Longrightarrow> gather_inv (loop_run steps g)"
  unfolding loop_run_def
proof (induction steps arbitrary: g)
  case Nil
  then show ?case by simp
next
  case (Cons st steps)
  then show ?case
    by (cases st) (simp_all add: gather_inv_child gather_inv_notify)
qed

lemma all_notified_done:
  assumes "gather_inv g" "all_notified g"
  shows "outer g \<noteq> None"
proof
  assume "outer g = None"
  with assms(1) have lt: "length (notified g) < length (children g)"
    and d: "distinct (notified g)"
    by (simp_all add: gather_inv_def)
  have "{..<length (children g)} \<subseteq> set (notified g)"
    using assms(2) by (auto simp: all_notified_def list_all_iff)
  then have "card {..<length (children g)} \<le> card (set (notified g))"
    by (intro card_mono) simp_all
  with d lt show False by (simp add: distinct_card)
qed


lemma clients_nth_map_of:
  assumes "distinct (client_ids p)" "i < length (clients p)" "clients p ! i = (k, c)"
  shows "map_of (clients p) k = Some c"
proof -
  have "distinct (map fst (clients p))"
    using assms(1) by (simp add: client_ids_def)
  moreover have "(k, c) \<in> set (clients p)"
    using assms(2,3) by (metis nth_mem)
  ultimately show ?thesis by (rule map_of_is_SomeI)
qed

text \<open>
  C8. \<^verbatim>\<open>disconnect_all\<close> leaves the proxy as it is and creates one \<^verbatim>\<open>close()\<close> coroutine, not yet
  started, for every session of the set, in the order of the set, gathered with
  \<^verbatim>\<open>return_exceptions=True\<close>. The coroutines run interleaved in any order, the done callbacks
  of the gathering among the steps. After every list of steps the children are those of the
  sessions of the set. The future returned, once it is done, holds a result and not an
  exception; every child has ended by then, and the result lists what each child ended
  with, return or exception, one entry for each session. It is done as soon as the done
  callback of every child has run. For a proxy reached by a run from the initial state and
  the child \<open>i\<close> that closes the session \<open>k\<close>: what the child and its session go through is
  what they go through under the events addressed to that child alone, so neither the
  interleaving nor the failure or the cancellation of another child changes the closing of
  a session; when these events are those of a \<^verbatim>\<open>close()\<close> that nothing disturbs, the child
  ends without an exception and the session is as \<^verbatim>\<open>close()\<close> on it leaves it, forwarding tasks
  cancelled and awaited, marked closed, and removed from the set where its done callback
  does that; and a child that has ended without an exception has left its session closed
  or out of the set.
\<close>

theorem C8_disconnect_all:
  "g_proxy (disconnect_all p) = p \<and>
   children (disconnect_all p) = map (\<lambda>k. (k, CloseStart)) (client_ids p) \<and>
   map fst (children (loop_run steps (disconnect_all p))) = client_ids p \<and>
   (outer (loop_run steps (disconnect_all p)) \<noteq> None \<longrightarrow>
      all_ended (loop_run steps (disconnect_all p)) \<and>
      outer (loop_run steps (disconnect_all p)) =
        Some (Inr (outcomes (loop_run steps (disconnect_all p))))) \<and>
   (all_notified (loop_run steps (disconnect_all p)) \<longrightarrow>
      outer (loop_run steps (disconnect_all p)) \<noteq> None) \<and>
   (i < length (clients (proxy (run_ops ops0 (system_init b)))) \<and>
    clients (proxy (run_ops ops0 (system_init b))) ! i = (k, c) \<longrightarrow>
      child_view i (loop_run steps (disconnect_all (proxy (run_ops ops0 (system_init b))))) =
      child_view i (gather_run (events_for i steps)
                      (disconnect_all (proxy (run_ops ops0 (system_init b))))) \<and>
      (events_for i steps = close_schedule i ended c \<longrightarrow>
         children (loop_run steps (disconnect_all (proxy (run_ops ops0 (system_init b))))) ! i
           = (k, CloseEnded None) \<and>
         map_of (clients (g_proxy
            (loop_run steps (disconnect_all (proxy (run_ops ops0 (system_init b))))))) k =
         map_of (clients (close_client ended k (proxy (run_ops ops0 (system_init b))))) k) \<and>
      (snd (children (loop_run steps (disconnect_all (proxy (run_ops ops0 (system_init b))))) ! i)
         = CloseEnded None \<longrightarrow>
       closed_or_gone
         (g_proxy (loop_run steps (disconnect_all (proxy (run_ops ops0 (system_init b)))))) k))"
proof -
  let ?p = "proxy (run_ops ops0 (system_init b))"
  let ?init = "disconnect_all ?p"
  let ?fin = "loop_run steps ?init"
  have a: "g_proxy (disconnect_all p) = p"
    by (simp add: disconnect_all_def gather_def)
  have b: "children (disconnect_all p) = map (\<lambda>k. (k, CloseStart)) (client_ids p)"
    by (rule disconnect_all_children)
  have c: "map fst (children (loop_run steps (disconnect_all p))) = client_ids p"
    by (simp add: loop_run_view gather_run_keys disconnect_all_children comp_def)
  have inv: "gather_inv (loop_run steps (disconnect_all p))"
    using gather_inv_init by (rule gather_inv_run)
  have d: "outer (loop_run steps (disconnect_all p)) \<noteq> None \<longrightarrow>
      all_ended (loop_run steps (disconnect_all p)) \<and>
      outer (loop_run steps (disconnect_all p)) =
        Some (Inr (outcomes (loop_run steps (disconnect_all p))))"
    using inv by (simp add: gather_inv_def)
  have e: "all_notified (loop_run steps (disconnect_all p)) \<longrightarrow>
      outer (loop_run steps (disconnect_all p)) \<noteq> None"
    using all_notified_done [OF inv] by blast
  have gp0: "g_proxy ?init = ?p"
    by (simp add: disconnect_all_def gather_def)
  have wf: "gathering_wf ?init"
    using reachable_wf [of ops0 b] by (simp add: disconnect_all_wf)
  have len: "length (children ?init) = length (clients ?p)"
    by (simp add: disconnect_all_children client_ids_def)
  have f: "i < length (clients ?p) \<and> clients ?p ! i = (k, c) \<longrightarrow>
      child_view i ?fin = child_view i (gather_run (events_for i steps) ?init) \<and>
      (events_for i steps = close_schedule i ended c \<longrightarrow>
         children ?fin ! i = (k, CloseEnded None) \<and>
         map_of (clients (g_proxy ?fin)) k = map_of (clients (close_client ended k ?p)) k) \<and>
      (snd (children ?fin ! i) = CloseEnded None \<longrightarrow> closed_or_gone (g_proxy ?fin) k)"
  proof
    assume h: "i < length (clients ?p) \<and> clients ?p ! i = (k, c)"
    then have i': "i < length (children ?init)"
      using len by simp
    have ch0: "children ?init ! i = (k, CloseStart)"
      using h by (simp add: disconnect_all_def gather_def)
    have "map_of (clients ?p) k = Some c"
      using reachable_wf [of ops0 b] h by (intro clients_nth_map_of [of ?p i]) simp_all
    then have mo0: "map_of (clients (g_proxy ?init)) k = Some c"
      by (simp add: disconnect_all_def gather_def)
    have v: "child_view i ?fin = child_view i (gather_run (events_for i steps) ?init)"
      unfolding loop_run_view events_for_def
      using wf wf i' i' by (rule gather_run_view) simp
    have u: "events_for i steps = close_schedule i ended c \<longrightarrow>
         children ?fin ! i = (k, CloseEnded None) \<and>
         map_of (clients (g_proxy ?fin)) k = map_of (clients (close_client ended k ?p)) k"
    proof
      assume "events_for i steps = close_schedule i ended c"
      with v gather_undisturbed [OF wf i' ch0 mo0, of ended]
      have "child_view i ?fin =
          ((k, CloseEnded None), map_of (clients (close_client ended k (g_proxy ?init))) k)"
        by simp
      then have c1: "fst (child_view i ?fin) = (k, CloseEnded None)"
        and c2: "snd (child_view i ?fin) =
           map_of (clients (close_client ended k (g_proxy ?init))) k"
        by simp_all
      from c1 have c3: "children ?fin ! i = (k, CloseEnded None)"
        unfolding child_view_def fst_conv .
      from c2 have "map_of (clients (g_proxy ?fin)) (fst (children ?fin ! i)) =
           map_of (clients (close_client ended k (g_proxy ?init))) k"
        unfolding child_view_def snd_conv .
      with c3 show "children ?fin ! i = (k, CloseEnded None) \<and>
         map_of (clients (g_proxy ?fin)) k = map_of (clients (close_client ended k ?p)) k"
        by (simp add: gp0)
    qed
    have ec: "ended_closed (gather_run (child_events steps) ?init)"
      using wf disconnect_all_ended_closed by (rule gather_run_ended_closed)
    have key: "fst (children ?fin ! i) = k"
    proof -
      have "map fst (children ?fin) ! i = map fst (children ?init) ! i"
        by (simp add: loop_run_view gather_run_keys)
      moreover have "i < length (children ?fin)"
        using i' by (simp add: loop_run_view gather_run_length)
      ultimately show ?thesis using i' ch0 by simp
    qed
    have il: "i < length (children (gather_run (child_events steps) ?init))"
      using i' by (simp add: gather_run_length)
    have w: "snd (children ?fin ! i) = CloseEnded None \<longrightarrow> closed_or_gone (g_proxy ?fin) k"
      using ec il key by (auto simp: ended_closed_def loop_run_view)
    from v u w show "child_view i ?fin = child_view i (gather_run (events_for i steps) ?init) \<and>
      (events_for i steps = close_schedule i ended c \<longrightarrow>
         children ?fin ! i = (k, CloseEnded None) \<and>
         map_of (clients (g_proxy ?fin)) k = map_of (clients (close_client ended k ?p)) k) \<and>
      (snd (children ?fin ! i) = CloseEnded None \<longrightarrow> closed_or_gone (g_proxy ?fin) k)"
      by (intro conjI)
  qed
  from a b c d e f show ?thesis by (intro conjI)
qed


lemma two_sessions_eq:
  "two_sessions = (TCPProxy_init True)\<lparr>clients := [(0, session_of 0), (1, session_of 1)], next_id := 2\<rparr>"
  by (simp add: two_sessions_def run_ops_def system_init_def handle_client_begin_def
        handle_client_end_def TCPProxy_init_def TCPProxyClient_init_def Delay_init_def
        set_timeout_def put_client_def set_read_processor_def set_write_processor_def
        connect_def Let_def session_of_def)

lemma sample_prefix_run:
  "children (loop_run sample_prefix (disconnect_all two_sessions)) =
     [(0, CloseEnded None), (1, CloseEnded (Some CancelledError))]"
  "notified (loop_run sample_prefix (disconnect_all two_sessions)) = [1]"
  "outer (loop_run sample_prefix (disconnect_all two_sessions)) = None"
  "client_ids (g_proxy (loop_run sample_prefix (disconnect_all two_sessions))) = [1]"
  by (simp_all add: sample_prefix_def loop_run_def gather_event_def done_callback_def
        child_event_def disconnect_all_def gather_def two_sessions_eq session_of_def
        TCPProxyClient_init_def put_client_def run_callbacks_def not_done_def upt_rec Let_def
        client_ids_def)

lemma sample_steps_run:
  "children (loop_run sample_steps (disconnect_all two_sessions)) =
     [(0, CloseEnded None), (1, CloseEnded (Some CancelledError))]"
  "notified (loop_run sample_steps (disconnect_all two_sessions)) = [1, 0]"
  "client_ids (g_proxy (loop_run sample_steps (disconnect_all two_sessions))) = [1]"
proof -
  have "loop_run sample_steps (disconnect_all two_sessions) =
      done_callback 0 (loop_run sample_prefix (disconnect_all two_sessions))"
    by (simp add: sample_steps_def loop_run_def)
  then show "children (loop_run sample_steps (disconnect_all two_sessions)) =
     [(0, CloseEnded None), (1, CloseEnded (Some CancelledError))]"
  "notified (loop_run sample_steps (disconnect_all two_sessions)) = [1, 0]"
  "client_ids (g_proxy (loop_run sample_steps (disconnect_all two_sessions))) = [1]"
    by (simp_all add: done_callback_def sample_prefix_run Let_def)
qed

lemma sample_events:
  "events_for 0 sample_steps = close_schedule 0 sample_ended (session_of 0)"
  by (simp add: events_for_def sample_steps_def sample_prefix_def close_schedule_def
        session_of_def TCPProxyClient_init_def sample_ended_def upt_rec)

theorem C8_disconnect_all_witness:
  "children (disconnect_all two_sessions) = [(0, CloseStart), (1, CloseStart)] \<and>
   0 < length (clients two_sessions) \<and> clients two_sessions ! 0 = (0, session_of 0) \<and>
   events_for 0 sample_steps = close_schedule 0 sample_ended (session_of 0) \<and>
   children (loop_run sample_steps (disconnect_all two_sessions)) =
     [(0, CloseEnded None), (1, CloseEnded (Some CancelledError))] \<and>
   client_ids (g_proxy (loop_run sample_steps (disconnect_all two_sessions))) = [1] \<and>
   map_of (clients (g_proxy (loop_run sample_steps (disconnect_all two_sessions)))) 0 =
     map_of (clients (close_client sample_ended 0 two_sessions)) 0 \<and>
   closed_or_gone (g_proxy (loop_run sample_steps (disconnect_all two_sessions))) 0 \<and>
   outer (loop_run sample_prefix (disconnect_all two_sessions)) = None \<and>
   all_notified (loop_run sample_steps (disconnect_all two_sessions)) \<and>
   outer (loop_run sample_steps (disconnect_all two_sessions)) =
     Some (Inr [None, Some CancelledError])"
proof -
  let ?fin = "loop_run sample_steps (disconnect_all two_sessions)"
  have ids: "client_ids two_sessions = [0, 1]"
    by (simp add: two_sessions_eq client_ids_def)
  have h: "0 < length (clients two_sessions) \<and> clients two_sessions ! 0 = (0, session_of 0)"
    by (simp add: two_sessions_eq)
  note c8 = C8_disconnect_all [where p = two_sessions and steps = sample_steps and i = 0 and k = 0
      and c = "session_of 0" and ended = sample_ended and b = True
      and ?ops0.0 = "[Accept, Connected 0 ConnectOk, Accept, Connected 1 ConnectOk]",
      folded two_sessions_def]
  have ch0: "children (disconnect_all two_sessions) = [(0, CloseStart), (1, CloseStart)]"
    using c8 [THEN conjunct2, THEN conjunct1] ids by simp
  have an: "all_notified ?fin"
    by (simp add: all_notified_def sample_steps_run upt_rec)
  have od: "outer ?fin \<noteq> None"
    using c8 [THEN conjunct2, THEN conjunct2, THEN conjunct2, THEN conjunct2, THEN conjunct1] an
    by blast
  have "outer ?fin = Some (Inr (outcomes ?fin))"
    using c8 [THEN conjunct2, THEN conjunct2, THEN conjunct2, THEN conjunct1] od by blast
  then have o: "outer ?fin = Some (Inr [None, Some CancelledError])"
    by (simp add: outcomes_def sample_steps_run)
  note per = c8 [THEN conjunct2, THEN conjunct2, THEN conjunct2, THEN conjunct2, THEN conjunct2,
      rule_format, OF h]
  have ag: "map_of (clients (g_proxy ?fin)) 0 =
      map_of (clients (close_client sample_ended 0 two_sessions)) 0"
    using per [THEN conjunct2, THEN conjunct1, rule_format, OF sample_events] by blast
  have cg: "closed_or_gone (g_proxy ?fin) 0"
    using per [THEN conjunct2, THEN conjunct2, rule_format] by (simp add: sample_steps_run)
  from ch0 h sample_events sample_steps_run(1,3) ag cg sample_prefix_run(3) an o
  show ?thesis by (intro conjI) simp_all
qed

end
